theory Spec2Isabelle
  imports Complex_Main
begin

section \<open>The page: cards, indicators, timers\<close>

text \<open>
  The script \<^verbatim>\<open>main.js\<close> drives a carousel of \<^verbatim>\<open>.portfolioCard\<close> elements
  (class \<^verbatim>\<open>PortfolioCarousel\<close>) and, in its second half (\<^verbatim>\<open>video.js\<close>), the
  playback of the cards' videos. Both halves work on the same card elements, so the
  model keeps one list of cards; a class name on an element is a boolean field.
\<close>

record video =
  playing :: bool
  currentTime :: rat

record overlay =
  display :: string
  pointerEvents :: string

text \<open>
  A card. \<open>pTextContainer\<close> is \<open>None\<close> when the card has no \<^verbatim>\<open>.pTextContainer\<close>,
  otherwise it tells whether that element carries the class \<^verbatim>\<open>expanded\<close>.
  \<open>videoContainer\<close> is \<open>None\<close> when the card has no \<^verbatim>\<open>.video-container\<close>,
  \<open>Some None\<close> when the container has no \<^verbatim>\<open>.video-overlay\<close>.
\<close>

record card =
  card_active :: bool
  card_prev :: bool
  pTextContainer :: "bool option"
  portfolioVid :: "video option"
  videoContainer :: "overlay option option"

record indicator =
  ind_active :: bool
  dataIndex :: "string option"
  ariaLabel :: "string option"
  testid :: "string option"

text \<open>
  A child element of \<^verbatim>\<open>.carousel-indicators\<close>. \<open>own\<close> is the element itself when it
  carries the class \<^verbatim>\<open>indicator\<close>; \<open>nested\<close> are the \<^verbatim>\<open>.indicator\<close> elements among its
  descendants, in document order. \<open>Ind i\<close> is an indicator without such descendants,
  \<open>Other\<close> a child without the class and without such descendants.
\<close>

datatype child = Child (own: "indicator option") (nested: "indicator list")

abbreviation Ind :: "indicator \<Rightarrow> child" where
  "Ind i \<equiv> Child (Some i) []"

abbreviation Other :: child where
  "Other \<equiv> Child None []"

text \<open>
  What the markup supplies. \<open>indicatorContainer\<close> holds the children of the first
  \<^verbatim>\<open>.carousel-indicators\<close> element, \<open>None\<close> when there is no such element.
  \<open>looseIndicators\<close> are the \<^verbatim>\<open>.indicator\<close> elements that precede the children of the
  container in document order (all \<^verbatim>\<open>.indicator\<close> elements when there is no container),
  \<open>laterIndicators\<close> those that follow the container. \<open>docProgressFill\<close> is the width
  (in percent) of the \<^verbatim>\<open>.progress-fill\<close> element, \<open>None\<close> when there is no such element.
\<close>

record document =
  docCards :: "card list"
  indicatorContainer :: "child list option"
  looseIndicators :: "indicator list"
  laterIndicators :: "indicator list"
  docProgressFill :: "rat option"

text \<open>
  The browser's timer table. \<^verbatim>\<open>setInterval\<close> and \<^verbatim>\<open>setTimeout\<close> hand out ids
  from one counter; an id is a positive integer, hence truthy, so the test
  \<^verbatim>\<open>if (this.autoAdvanceInterval)\<close> is the test for \<open>Some\<close>. The callbacks are
  defunctionalised: \<open>AutoAdvance\<close> is \<^verbatim>\<open>() => this.goToNext()\<close>, \<open>Progress p inc\<close> is
  the closure of \<^verbatim>\<open>startProgress\<close> with its variables \<^verbatim>\<open>progress\<close> and
  \<^verbatim>\<open>increment\<close>, \<open>ClearPrev\<close> is the 600 ms timeout of \<^verbatim>\<open>goToSlide\<close>.
\<close>

datatype callback = AutoAdvance | Progress rat rat | ClearPrev

record timer =
  tid :: nat
  delay :: rat
  repeating :: bool
  callback :: callback

text \<open>The fields of \<^verbatim>\<open>PortfolioCarousel\<close>, the elements it holds, and the timer table.\<close>

record carousel =
  currentIndex :: nat
  cards :: "card list"
  indicators :: "indicator list"
  progressFill :: "rat option"
  autoAdvanceInterval :: "nat option"
  progressInterval :: "nat option"
  autoAdvanceDelay :: rat
  isPaused :: bool
  timers :: "timer list"
  nextTimerId :: nat

text \<open>
  A handler either returns or throws a \<^verbatim>\<open>TypeError\<close> (a property read on
  \<^verbatim>\<open>undefined\<close>); the mutations made before the throw stay.
\<close>

datatype outcome = Returned carousel | TypeError carousel

fun state_of :: "outcome \<Rightarrow> carousel" where
  "state_of (Returned s) = s"
| "state_of (TypeError s) = s"

fun threw :: "outcome \<Rightarrow> bool" where
  "threw (Returned s) = False"
| "threw (TypeError s) = True"

section \<open>Numbers\<close>

text \<open>
  JavaScript numbers are IEEE 754 doubles. \<open>fl\<close> rounds a rational to the nearest
  number with a 53 bit significand, ties to even; overflow and subnormal numbers are
  left out (every value computed by the script lies between 0 and 102).
\<close>

function bitlen :: "int \<Rightarrow> nat" where
  "bitlen n = (if n \<le> 0 then 0 else Suc (bitlen (n div 2)))"
  by pat_completeness auto
termination
  by (relation "measure nat") auto

declare bitlen.simps [simp del]

definition pow2 :: "int \<Rightarrow> rat" where
  "pow2 e = (if 0 \<le> e then 2 ^ nat e else 1 / 2 ^ nat (- e))"

definition exponent :: "rat \<Rightarrow> int" where
  "exponent x =
     (if 1 \<le> x then int (bitlen \<lfloor>x\<rfloor>) - 1
      else let y = 1 / x; b = int (bitlen \<lfloor>y\<rfloor>)
           in if y = pow2 (b - 1) then - (b - 1) else - b)"

definition round_half_even :: "rat \<Rightarrow> int" where
  "round_half_even x =
     (let f = \<lfloor>x\<rfloor>; d = x - of_int f
      in if d < 1 / 2 then f
         else if 1 / 2 < d then f + 1
         else if even f then f else f + 1)"

definition fl_pos :: "rat \<Rightarrow> rat" where
  "fl_pos x = (let q = pow2 (exponent x - 52) in of_int (round_half_even (x / q)) * q)"

definition fl :: "rat \<Rightarrow> rat" where
  "fl x = (if x = 0 then 0 else if x < 0 then - fl_pos (- x) else fl_pos x)"

text \<open>\<^verbatim>\<open>i.toString()\<close> for a non-negative integer.\<close>

fun toString :: "nat \<Rightarrow> string" where
  "toString n =
     (if n < 10 then [char_of (48 + n)]
      else toString (n div 10) @ [char_of (48 + n mod 10)])"

declare toString.simps [simp del]

section \<open>The timer table\<close>

definition setInterval :: "callback \<Rightarrow> rat \<Rightarrow> carousel \<Rightarrow> nat \<times> carousel" where
  "setInterval cb d s =
     (nextTimerId s,
      s\<lparr>timers := timers s @ [\<lparr>tid = nextTimerId s, delay = d, repeating = True, callback = cb\<rparr>],
        nextTimerId := Suc (nextTimerId s)\<rparr>)"

definition setTimeout :: "callback \<Rightarrow> rat \<Rightarrow> carousel \<Rightarrow> nat \<times> carousel" where
  "setTimeout cb d s =
     (nextTimerId s,
      s\<lparr>timers := timers s @ [\<lparr>tid = nextTimerId s, delay = d, repeating = False, callback = cb\<rparr>],
        nextTimerId := Suc (nextTimerId s)\<rparr>)"

definition clearInterval :: "nat \<Rightarrow> carousel \<Rightarrow> carousel" where
  "clearInterval h s = s\<lparr>timers := filter (\<lambda>t. tid t \<noteq> h) (timers s)\<rparr>"

section \<open>PortfolioCarousel\<close>

definition resetProgress :: "carousel \<Rightarrow> carousel" where
  "resetProgress s =
     (let s1 = (case progressInterval s of Some h \<Rightarrow> clearInterval h s | None \<Rightarrow> s)
      in case progressFill s1 of Some w \<Rightarrow> s1\<lparr>progressFill := Some 0\<rparr> | None \<Rightarrow> s1)"

text \<open>\<^verbatim>\<open>autoAdvanceDelay\<close> is 9000 in every state the constructor builds, so the
  divisions are never by zero.\<close>

definition startProgress :: "carousel \<Rightarrow> carousel" where
  "startProgress s =
     (let progress = 0;
          increment = fl (100 / fl (autoAdvanceDelay s / 100));
          (h, s1) = setInterval (Progress progress increment) 100 s
      in s1\<lparr>progressInterval := Some h\<rparr>)"

definition startAutoAdvance :: "carousel \<Rightarrow> carousel" where
  "startAutoAdvance s =
     (let s1 = resetProgress s;
          s2 = startProgress s1;
          (h, s3) = setInterval AutoAdvance (autoAdvanceDelay s2) s2
      in s3\<lparr>autoAdvanceInterval := Some h\<rparr>)"

definition tempPauseAutoAdvance :: "carousel \<Rightarrow> carousel" where
  "tempPauseAutoAdvance s =
     (let s1 = (case autoAdvanceInterval s of
                  Some h \<Rightarrow> (clearInterval h s)\<lparr>autoAdvanceInterval := None\<rparr>
                | None \<Rightarrow> s)
      in case progressInterval s1 of
           Some h \<Rightarrow> (clearInterval h s1)\<lparr>progressInterval := None\<rparr>
         | None \<Rightarrow> s1)"

definition pauseAutoAdvance :: "carousel \<Rightarrow> carousel" where
  "pauseAutoAdvance s =
     (let s0 = s\<lparr>isPaused := True\<rparr>;
          s1 = (case autoAdvanceInterval s0 of
                  Some h \<Rightarrow> (clearInterval h s0)\<lparr>autoAdvanceInterval := None\<rparr>
                | None \<Rightarrow> s0)
      in case progressInterval s1 of
           Some h \<Rightarrow> (clearInterval h s1)\<lparr>progressInterval := None\<rparr>
         | None \<Rightarrow> s1)"

definition resumeAutoAdvance :: "carousel \<Rightarrow> carousel" where
  "resumeAutoAdvance s =
     (let s1 = (if \<not> isPaused s then startAutoAdvance (pauseAutoAdvance s) else s)
      in s1\<lparr>isPaused := False\<rparr>)"

text \<open>\<^verbatim>\<open>card.querySelector('.pTextContainer')?.classList.remove('expanded')\<close>\<close>

definition collapse :: "card \<Rightarrow> card" where
  "collapse c = c\<lparr>pTextContainer := map_option (\<lambda>e. False) (pTextContainer c)\<rparr>"

text \<open>
  \<^verbatim>\<open>goToSlide\<close> returns at once when \<^verbatim>\<open>this.cards[this.currentIndex]\<close> is undefined.
  When \<^verbatim>\<open>index\<close> is not the ordinal of a card, \<^verbatim>\<open>this.cards[this.currentIndex].classList\<close>
  throws after \<^verbatim>\<open>this.currentIndex = index\<close>.
\<close>

definition goToSlide :: "nat \<Rightarrow> carousel \<Rightarrow> outcome" where
  "goToSlide index s =
     (if \<not> currentIndex s < length (cards s) then Returned s
      else
        let s1 = s\<lparr>cards := map collapse (cards s)\<rparr>;
            s2 = s1\<lparr>cards := (cards s1)[currentIndex s1 :=
                        (cards s1 ! currentIndex s1)\<lparr>card_active := False\<rparr>]\<rparr>;
            s3 = s2\<lparr>cards := (cards s2)[currentIndex s2 :=
                        (cards s2 ! currentIndex s2)\<lparr>card_prev := True\<rparr>]\<rparr>;
            s4 = snd (setTimeout ClearPrev 600 s3);
            s5 = s4\<lparr>currentIndex := index\<rparr>
        in if \<not> currentIndex s5 < length (cards s5) then TypeError s5
           else
             let s6 = s5\<lparr>cards := (cards s5)[currentIndex s5 :=
                         (cards s5 ! currentIndex s5)\<lparr>card_active := True\<rparr>]\<rparr>;
                 s7 = s6\<lparr>indicators := map (\<lambda>ind. ind\<lparr>ind_active := False\<rparr>) (indicators s6)\<rparr>;
                 s8 = (if currentIndex s7 < length (indicators s7)
                       then s7\<lparr>indicators := (indicators s7)[currentIndex s7 :=
                              (indicators s7 ! currentIndex s7)\<lparr>ind_active := True\<rparr>]\<rparr>
                       else s7)
             in Returned (resumeAutoAdvance (resetProgress s8)))"

text \<open>
  The indices are JavaScript numbers, so \<^verbatim>\<open>this.currentIndex - 1\<close> may be \<open>-1\<close>: the
  arithmetic is done in \<open>int\<close>. With no card the script computes \<^verbatim>\<open>NaN\<close>; \<open>goToSlide\<close>
  then returns at its first test whatever the index is.
\<close>

definition goToNext :: "carousel \<Rightarrow> outcome" where
  "goToNext s =
     (let nextIndex = (currentIndex s + 1) mod length (cards s)
      in goToSlide nextIndex s)"

definition goToPrevious :: "carousel \<Rightarrow> outcome" where
  "goToPrevious s =
     (let prevIndex = nat ((int (currentIndex s) - 1 + int (length (cards s)))
                            mod int (length (cards s)))
      in goToSlide prevIndex s)"

text \<open>The closure \<^verbatim>\<open>toggle\<close> of \<^verbatim>\<open>initDetailsToggle\<close> for the card at ordinal \<open>k\<close>; a
  card without \<^verbatim>\<open>.pTextContainer\<close> gets no listener.\<close>

definition toggle :: "nat \<Rightarrow> carousel \<Rightarrow> carousel" where
  "toggle k s =
     (if \<not> k < length (cards s) then s
      else case pTextContainer (cards s ! k) of
             None \<Rightarrow> s
           | Some isOpen \<Rightarrow>
               if isOpen
               then resumeAutoAdvance (s\<lparr>cards := (cards s)[k := (cards s ! k)\<lparr>pTextContainer := Some False\<rparr>]\<rparr>)
               else pauseAutoAdvance (s\<lparr>cards := (cards s)[k := (cards s ! k)\<lparr>pTextContainer := Some True\<rparr>]\<rparr>))"

text \<open>\<^verbatim>\<open>currentCard.querySelector('.pTextContainer')?.classList.contains('expanded')\<close>:
  undefined, hence falsy, without a text container.\<close>

definition isExpanded :: "card \<Rightarrow> bool" where
  "isExpanded c = (case pTextContainer c of Some e \<Rightarrow> e | None \<Rightarrow> False)"

definition mouseenter :: "carousel \<Rightarrow> outcome" where
  "mouseenter s =
     (if \<not> currentIndex s < length (cards s) then TypeError s
      else if \<not> isExpanded (cards s ! currentIndex s) then Returned (tempPauseAutoAdvance s)
      else Returned s)"

definition mouseleave :: "carousel \<Rightarrow> outcome" where
  "mouseleave s =
     (if \<not> currentIndex s < length (cards s) then TypeError s
      else if \<not> isExpanded (cards s ! currentIndex s) then Returned (resumeAutoAdvance s)
      else Returned s)"

text \<open>The click listener that \<^verbatim>\<open>initNavigation\<close> gives the indicator at position
  \<open>index\<close>.\<close>

definition indicatorClick :: "nat \<Rightarrow> carousel \<Rightarrow> outcome" where
  "indicatorClick index s =
     (if index < length (indicators s) then goToSlide index s else Returned s)"

text \<open>The body of the progress callback: \<^verbatim>\<open>progress += increment\<close>, clamped at 100.\<close>

definition tick :: "rat \<Rightarrow> rat \<Rightarrow> rat" where
  "tick progress increment =
     (let progress1 = fl (progress + increment)
      in if 100 \<le> progress1 then 100 else progress1)"

text \<open>
  The browser runs the callback of the live timer with id \<open>h\<close>. A timeout leaves the
  table when it fires. The callback of the 600 ms timeout reads \<^verbatim>\<open>this.currentIndex\<close>
  when it runs.
\<close>

definition fire :: "nat \<Rightarrow> carousel \<Rightarrow> outcome" where
  "fire h s =
     (case find (\<lambda>t. tid t = h) (timers s) of
        None \<Rightarrow> Returned s
      | Some t \<Rightarrow>
          (case callback t of
             AutoAdvance \<Rightarrow> goToNext s
           | Progress progress increment \<Rightarrow>
               let p = tick progress increment;
                   s1 = s\<lparr>timers := map (\<lambda>u. if tid u = h then u\<lparr>callback := Progress p increment\<rparr> else u)
                                       (timers s)\<rparr>
               in Returned (case progressFill s1 of
                              Some w \<Rightarrow> s1\<lparr>progressFill := Some p\<rparr>
                            | None \<Rightarrow> s1)
           | ClearPrev \<Rightarrow>
               let s1 = s\<lparr>timers := filter (\<lambda>u. tid u \<noteq> h) (timers s)\<rparr>
               in if \<not> currentIndex s1 < length (cards s1) then TypeError s1
                  else Returned (s1\<lparr>cards := (cards s1)[currentIndex s1 :=
                                   (cards s1 ! currentIndex s1)\<lparr>card_prev := False\<rparr>]\<rparr>)))"

text \<open>The value of the closure variable \<^verbatim>\<open>progress\<close> after \<open>n\<close> runs of the progress
  callback, and the list of its values after the first, second, ..., \<open>n\<close>-th run.\<close>

fun ticks :: "nat \<Rightarrow> rat \<Rightarrow> rat \<Rightarrow> rat" where
  "ticks 0 progress increment = progress"
| "ticks (Suc n) progress increment = ticks n (tick progress increment) increment"

fun trace :: "nat \<Rightarrow> rat \<Rightarrow> rat \<Rightarrow> rat list" where
  "trace 0 progress increment = []"
| "trace (Suc n) progress increment =
     tick progress increment # trace n (tick progress increment) increment"

subsection \<open>The constructor\<close>

definition newIndicator :: "nat \<Rightarrow> indicator" where
  "newIndicator i =
     \<lparr>ind_active = False,
      dataIndex = Some (toString i),
      ariaLabel = Some (''Go to slide '' @ toString (i + 1)),
      testid = Some (''indicator-'' @ toString i)\<rparr>"

text \<open>The loop \<^verbatim>\<open>for (let i = startingIndex; i < this.cards.length; i++)\<close>.\<close>

function backfill :: "nat \<Rightarrow> nat \<Rightarrow> child list \<Rightarrow> child list" where
  "backfill i n children =
     (if i < n then backfill (Suc i) n (children @ [Ind (newIndicator i)]) else children)"
  by pat_completeness auto
termination
  by (relation "measure (\<lambda>(i, n, children). n - i)") auto

declare backfill.simps [simp del]

text \<open>The \<^verbatim>\<open>.indicator\<close> elements inside the container, in document order.\<close>

fun indicatorsOf :: "child list \<Rightarrow> indicator list" where
  "indicatorsOf [] = []"
| "indicatorsOf (Child self inner # cs) =
     (case self of Some i \<Rightarrow> [i] | None \<Rightarrow> []) @ inner @ indicatorsOf cs"

text \<open>
  \<^verbatim>\<open>document.querySelectorAll('.indicator')\<close>: the elements in document order. The
  buttons that the constructor appends are the last children of the container, so they
  follow every indicator inside it and precede those after it.
\<close>

definition querySelectorAll_indicator ::
  "indicator list \<Rightarrow> child list option \<Rightarrow> indicator list \<Rightarrow> indicator list" where
  "querySelectorAll_indicator loose container later =
     loose @ (case container of Some children \<Rightarrow> indicatorsOf children | None \<Rightarrow> []) @ later"

text \<open>
  \<^verbatim>\<open>init\<close>: the three \<^verbatim>\<open>init...\<close> methods only attach listeners (the operations
  below). The constructor runs when the document is loaded; no other script of the page
  has set a timer, so the timer table is empty and the first id is 1.
\<close>

definition init :: "carousel \<Rightarrow> carousel" where
  "init s = startAutoAdvance s"

definition constructor :: "document \<Rightarrow> carousel" where
  "constructor doc =
     (let cs = docCards doc;
          container =
            (case indicatorContainer doc of
               None \<Rightarrow> None
             | Some children \<Rightarrow>
                 if length children < length cs
                 then Some (backfill (length children) (length cs) children)
                 else Some children);
          s = \<lparr>currentIndex = 0,
               cards = cs,
               indicators =
                 querySelectorAll_indicator (looseIndicators doc) container (laterIndicators doc),
               progressFill = docProgressFill doc,
               autoAdvanceInterval = None,
               progressInterval = None,
               autoAdvanceDelay = 9000,
               isPaused = False,
               timers = [],
               nextTimerId = 1\<rparr>
      in if length cs \<noteq> 0 then init s else s)"

subsection \<open>Operations and reachable states\<close>

text \<open>
  The operations of the carousel after its construction: the methods that the
  listeners and the timers call. An exception thrown by a handler ends the handler
  only; the page goes on from the state the handler left.
\<close>

datatype operation =
    GoToSlide nat
  | GoToNext
  | GoToPrevious
  | Toggle nat
  | MouseEnter
  | MouseLeave
  | ResumeAutoAdvance
  | Fire nat

fun perform :: "operation \<Rightarrow> carousel \<Rightarrow> carousel" where
  "perform (GoToSlide i) s = state_of (goToSlide i s)"
| "perform GoToNext s = state_of (goToNext s)"
| "perform GoToPrevious s = state_of (goToPrevious s)"
| "perform (Toggle k) s = toggle k s"
| "perform MouseEnter s = state_of (mouseenter s)"
| "perform MouseLeave s = state_of (mouseleave s)"
| "perform ResumeAutoAdvance s = resumeAutoAdvance s"
| "perform (Fire h) s = state_of (fire h s)"

fun run :: "operation list \<Rightarrow> carousel \<Rightarrow> carousel" where
  "run [] s = s"
| "run (op # ops) s = run ops (perform op s)"

inductive reachable :: "document \<Rightarrow> carousel \<Rightarrow> bool" for doc :: document where
  start: "reachable doc (constructor doc)"
| step: "reachable doc s \<Longrightarrow> reachable doc (perform op s)"

definition isProgress :: "callback \<Rightarrow> bool" where
  "isProgress cb = (case cb of Progress p i \<Rightarrow> True | _ \<Rightarrow> False)"

definition liveAutoAdvance :: "carousel \<Rightarrow> timer list" where
  "liveAutoAdvance s = filter (\<lambda>t. callback t = AutoAdvance) (timers s)"

definition liveProgress :: "carousel \<Rightarrow> timer list" where
  "liveProgress s = filter (\<lambda>t. isProgress (callback t)) (timers s)"

text \<open>The timer table agrees with the two handles: ids are fresh and distinct, and a
  live interval timer is the one its handle names.\<close>

definition timers_ok :: "carousel \<Rightarrow> bool" where
  "timers_ok s \<longleftrightarrow>
     distinct (map tid (timers s)) \<and>
     (\<forall>t \<in> set (timers s).
        tid t < nextTimerId s \<and>
        (callback t = AutoAdvance \<longrightarrow> autoAdvanceInterval s = Some (tid t)) \<and>
        (isProgress (callback t) \<longrightarrow> progressInterval s = Some (tid t)))"

text \<open>While \<^verbatim>\<open>isPaused\<close> is set, both handles are null.\<close>

definition paused_ok :: "carousel \<Rightarrow> bool" where
  "paused_ok s \<longleftrightarrow> (isPaused s \<longrightarrow> autoAdvanceInterval s = None \<and> progressInterval s = None)"

text \<open>
  The state \<open>s\<close> has just started a cycle: the fill is 0, and the two handles name
  the progress timer \<open>h\<close> (100 ms, \<^verbatim>\<open>progress\<close> at 0, the increment \<open>100 / (9000 / 100)\<close>
  in double arithmetic) and the auto-advance timer \<open>h + 1\<close> (9000 ms).
\<close>

definition cycle_started :: "carousel \<Rightarrow> nat \<Rightarrow> bool" where
  "cycle_started s h \<longleftrightarrow>
     progressFill s = Some 0 \<and>
     progressInterval s = Some h \<and>
     autoAdvanceInterval s = Some (Suc h) \<and>
     find (\<lambda>t. tid t = h) (timers s) =
       Some \<lparr>tid = h, delay = 100, repeating = True,
             callback = Progress 0 (fl (100 / fl (9000 / 100)))\<rparr> \<and>
     find (\<lambda>t. tid t = Suc h) (timers s) =
       Some \<lparr>tid = Suc h, delay = 9000, repeating = True, callback = AutoAdvance\<rparr>"

section \<open>Video playback\<close>

text \<open>
  \<^verbatim>\<open>video.play()\<close> and \<^verbatim>\<open>video.pause()\<close> set and clear \<open>playing\<close>. The listeners of
  \<^verbatim>\<open>video.js\<close> work on the card elements; \<open>isMobile\<close> is computed once.
\<close>

fun firstActive :: "card list \<Rightarrow> nat option" where
  "firstActive [] = None"
| "firstActive (c # cs) = (if card_active c then Some 0 else map_option Suc (firstActive cs))"

definition getCurrentIndex :: "card list \<Rightarrow> nat" where
  "getCurrentIndex cs = (case firstActive cs of Some i \<Rightarrow> i | None \<Rightarrow> 0)"

definition newOverlay :: overlay where
  "newOverlay = \<lparr>display = [], pointerEvents = []\<rparr>"

definition setupCard :: "bool \<Rightarrow> card \<Rightarrow> card" where
  "setupCard isMobile c =
     (case (portfolioVid c, videoContainer c) of
        (Some v, Some ov) \<Rightarrow>
          if isMobile
          then let overlay = (case ov of None \<Rightarrow> newOverlay | Some existing \<Rightarrow> existing)
               in c\<lparr>videoContainer := Some (Some (overlay\<lparr>pointerEvents := ''auto''\<rparr>))\<rparr>
          else c
      | _ \<Rightarrow> c)"

definition videoInit :: "bool \<Rightarrow> card list \<Rightarrow> card list" where
  "videoInit isMobile cs = map (setupCard isMobile) cs"

text \<open>The click listener of the overlay of card \<open>k\<close>; it exists on mobile only.\<close>

definition overlayClick :: "bool \<Rightarrow> nat \<Rightarrow> card list \<Rightarrow> card list" where
  "overlayClick isMobile k cs =
     (if isMobile \<and> k < length cs
      then case (portfolioVid (cs ! k), videoContainer (cs ! k)) of
             (Some v, Some (Some ov)) \<Rightarrow>
               cs[k := (cs ! k)\<lparr>videoContainer := Some (Some (ov\<lparr>display := ''none''\<rparr>)),
                                portfolioVid := Some (v\<lparr>playing := True\<rparr>)\<rparr>]
           | _ \<Rightarrow> cs
      else cs)"

text \<open>The IntersectionObserver callback of card \<open>k\<close> for one entry; the empty string
  for \<^verbatim>\<open>display\<close> shows the overlay again.\<close>

definition observerCallback :: "bool \<Rightarrow> nat \<Rightarrow> bool \<Rightarrow> card list \<Rightarrow> card list" where
  "observerCallback isMobile k isIntersecting cs =
     (if k < length cs
      then case (portfolioVid (cs ! k), videoContainer (cs ! k)) of
             (Some v, Some ov) \<Rightarrow>
               let currentIndex = getCurrentIndex cs
               in if isMobile
                  then if \<not> isIntersecting \<or> k \<noteq> currentIndex
                       then cs[k := (cs ! k)\<lparr>portfolioVid := Some (v\<lparr>playing := False, currentTime := 0\<rparr>),
                                             videoContainer := Some (map_option (\<lambda>el. el\<lparr>display := []\<rparr>) ov)\<rparr>]
                       else cs
                  else if isIntersecting \<and> k = currentIndex
                       then cs[k := (cs ! k)\<lparr>portfolioVid := Some (v\<lparr>playing := True\<rparr>)\<rparr>]
                       else cs[k := (cs ! k)\<lparr>portfolioVid := Some (v\<lparr>playing := False, currentTime := 0\<rparr>)\<rparr>]
           | _ \<Rightarrow> cs
      else cs)"

definition isPlaying :: "card \<Rightarrow> bool" where
  "isPlaying c = (case portfolioVid c of Some v \<Rightarrow> playing v | None \<Rightarrow> False)"

section \<open>Example pages\<close>

text \<open>Three cards, the first one marked active, each with a details panel and a
  video in its container; three indicators; a progress bar.\<close>

definition idleCard :: card where
  "idleCard =
     \<lparr>card_active = False, card_prev = False, pTextContainer = Some False,
      portfolioVid = Some \<lparr>playing = False, currentTime = 0\<rparr>,
      videoContainer = Some None\<rparr>"

definition activeCard :: card where
  "activeCard = idleCard\<lparr>card_active := True\<rparr>"

definition plainIndicator :: indicator where
  "plainIndicator = \<lparr>ind_active = False, dataIndex = None, ariaLabel = None, testid = None\<rparr>"

definition examplePage :: document where
  "examplePage =
     \<lparr>docCards = [activeCard, idleCard, idleCard],
      indicatorContainer =
        Some [Ind (plainIndicator\<lparr>ind_active := True\<rparr>), Ind plainIndicator, Ind plainIndicator],
      looseIndicators = [],
      laterIndicators = [],
      docProgressFill = Some 0\<rparr>"

text \<open>Two cards and nothing else: no card marked active, no indicator container.\<close>

definition barePage :: document where
  "barePage =
     \<lparr>docCards = [idleCard, idleCard],
      indicatorContainer = None,
      looseIndicators = [],
      laterIndicators = [],
      docProgressFill = None\<rparr>"

text \<open>Two cards, the first one active; an empty indicator container, and after it the
  only indicator of the markup, marked active.\<close>

definition trailingPage :: document where
  "trailingPage =
     \<lparr>docCards = [activeCard, idleCard],
      indicatorContainer = Some [],
      looseIndicators = [],
      laterIndicators = [plainIndicator\<lparr>ind_active := True\<rparr>],
      docProgressFill = None\<rparr>"

text \<open>Three cards, the first one active, and an indicator container that holds one
  indicator only.\<close>

definition shortPage :: document where
  "shortPage =
     \<lparr>docCards = [activeCard, idleCard, idleCard],
      indicatorContainer = Some [Ind (plainIndicator\<lparr>ind_active := True\<rparr>)],
      looseIndicators = [],
      laterIndicators = [],
      docProgressFill = Some 0\<rparr>"

section \<open>Time\<close>

text \<open>
  The browser's clock, in milliseconds since the page was loaded, and for each timer
  the time at which it was set or, for an interval, last run. A timer is due \<open>delay\<close>
  milliseconds after that time. The browser runs a callback no earlier than the time at
  which its timer is due; it may run it later, and nothing fixes the order of two
  callbacks that are due at the same time.
\<close>

record clock =
  now :: rat
  armed :: "(nat \<times> rat) list"

definition due :: "clock \<Rightarrow> carousel \<Rightarrow> nat \<Rightarrow> rat option" where
  "due c s h =
     (case (find (\<lambda>t. tid t = h) (timers s), map_of (armed c) h) of
        (Some t, Some a) \<Rightarrow> Some (a + delay t)
      | _ \<Rightarrow> None)"

fun arm :: "nat \<Rightarrow> rat \<Rightarrow> (nat \<times> rat) list \<Rightarrow> (nat \<times> rat) list" where
  "arm h t [] = [(h, t)]"
| "arm h t (e # es) = (if fst e = h then (h, t) # es else e # arm h t es)"

text \<open>
  The operation \<open>op\<close> happens at time \<open>t\<close>: \<open>None\<close> when time would run backwards, or
  when a timer would fire that is not live or not yet due. The timer that fired and the
  timers that the operation sets are armed at \<open>t\<close>.
\<close>

definition happens :: "rat \<Rightarrow> operation \<Rightarrow> clock \<times> carousel \<Rightarrow> (clock \<times> carousel) option" where
  "happens t op cs =
     (let c = fst cs; s = snd cs;
          allowed = (case op of
                       Fire h \<Rightarrow> (case due c s h of Some d \<Rightarrow> d \<le> t | None \<Rightarrow> False)
                     | _ \<Rightarrow> True)
      in if t < now c \<or> \<not> allowed then None
         else
           let s' = perform op s;
               again = (case op of Fire h \<Rightarrow> [h] | _ \<Rightarrow> []);
               set = [nextTimerId s..<nextTimerId s']
           in Some (\<lparr>now = t, armed = fold (\<lambda>h. arm h t) (again @ set) (armed c)\<rparr>, s'))"

fun timed :: "(rat \<times> operation) list \<Rightarrow> clock \<times> carousel \<Rightarrow> (clock \<times> carousel) option" where
  "timed [] cs = Some cs"
| "timed (e # es) cs =
     (case happens (fst e) (snd e) cs of
        None \<Rightarrow> None
      | Some cs' \<Rightarrow> timed es cs')"

text \<open>The page at time 0, right after the constructor ran.\<close>

definition loaded :: "document \<Rightarrow> clock \<times> carousel" where
  "loaded doc =
     (\<lparr>now = 0, armed = map (\<lambda>t. (tid t, 0)) (timers (constructor doc))\<rparr>, constructor doc)"

section \<open>Frame lemmas\<close>

lemma clearInterval_fields [simp]:
  "currentIndex (clearInterval h s) = currentIndex s"
  "cards (clearInterval h s) = cards s"
  "indicators (clearInterval h s) = indicators s"
  "progressFill (clearInterval h s) = progressFill s"
  "autoAdvanceInterval (clearInterval h s) = autoAdvanceInterval s"
  "progressInterval (clearInterval h s) = progressInterval s"
  "autoAdvanceDelay (clearInterval h s) = autoAdvanceDelay s"
  "isPaused (clearInterval h s) = isPaused s"
  "nextTimerId (clearInterval h s) = nextTimerId s"
  "timers (clearInterval h s) = filter (\<lambda>t. tid t \<noteq> h) (timers s)"
  by (simp_all add: clearInterval_def)

lemma resetProgress_fields [simp]:
  "currentIndex (resetProgress s) = currentIndex s"
  "cards (resetProgress s) = cards s"
  "indicators (resetProgress s) = indicators s"
  "autoAdvanceInterval (resetProgress s) = autoAdvanceInterval s"
  "progressInterval (resetProgress s) = progressInterval s"
  "autoAdvanceDelay (resetProgress s) = autoAdvanceDelay s"
  "isPaused (resetProgress s) = isPaused s"
  "nextTimerId (resetProgress s) = nextTimerId s"
  "progressFill (resetProgress s) = map_option (\<lambda>w. 0) (progressFill s)"
  "timers (resetProgress s) =
     (case progressInterval s of Some h \<Rightarrow> filter (\<lambda>t. tid t \<noteq> h) (timers s) | None \<Rightarrow> timers s)"
  by (auto simp: resetProgress_def Let_def split: option.splits)

lemma startProgress_fields [simp]:
  "currentIndex (startProgress s) = currentIndex s"
  "cards (startProgress s) = cards s"
  "indicators (startProgress s) = indicators s"
  "progressFill (startProgress s) = progressFill s"
  "autoAdvanceInterval (startProgress s) = autoAdvanceInterval s"
  "progressInterval (startProgress s) = Some (nextTimerId s)"
  "autoAdvanceDelay (startProgress s) = autoAdvanceDelay s"
  "isPaused (startProgress s) = isPaused s"
  "nextTimerId (startProgress s) = Suc (nextTimerId s)"
  "timers (startProgress s) =
     timers s @ [\<lparr>tid = nextTimerId s, delay = 100, repeating = True,
                  callback = Progress 0 (fl (100 / fl (autoAdvanceDelay s / 100)))\<rparr>]"
  by (simp_all add: startProgress_def setInterval_def Let_def)

lemma startAutoAdvance_fields [simp]:
  "currentIndex (startAutoAdvance s) = currentIndex s"
  "cards (startAutoAdvance s) = cards s"
  "indicators (startAutoAdvance s) = indicators s"
  "progressFill (startAutoAdvance s) = map_option (\<lambda>w. 0) (progressFill s)"
  "autoAdvanceInterval (startAutoAdvance s) = Some (Suc (nextTimerId s))"
  "progressInterval (startAutoAdvance s) = Some (nextTimerId s)"
  "autoAdvanceDelay (startAutoAdvance s) = autoAdvanceDelay s"
  "isPaused (startAutoAdvance s) = isPaused s"
  "nextTimerId (startAutoAdvance s) = Suc (Suc (nextTimerId s))"
  "timers (startAutoAdvance s) =
     timers (resetProgress s) @
       [\<lparr>tid = nextTimerId s, delay = 100, repeating = True,
          callback = Progress 0 (fl (100 / fl (autoAdvanceDelay s / 100)))\<rparr>,
        \<lparr>tid = Suc (nextTimerId s), delay = autoAdvanceDelay s, repeating = True,
          callback = AutoAdvance\<rparr>]"
  by (simp_all add: startAutoAdvance_def setInterval_def Let_def)

lemma tempPauseAutoAdvance_fields [simp]:
  "currentIndex (tempPauseAutoAdvance s) = currentIndex s"
  "cards (tempPauseAutoAdvance s) = cards s"
  "indicators (tempPauseAutoAdvance s) = indicators s"
  "progressFill (tempPauseAutoAdvance s) = progressFill s"
  "autoAdvanceInterval (tempPauseAutoAdvance s) = None"
  "progressInterval (tempPauseAutoAdvance s) = None"
  "autoAdvanceDelay (tempPauseAutoAdvance s) = autoAdvanceDelay s"
  "isPaused (tempPauseAutoAdvance s) = isPaused s"
  "nextTimerId (tempPauseAutoAdvance s) = nextTimerId s"
  by (simp_all add: tempPauseAutoAdvance_def Let_def split: option.splits)

lemma pauseAutoAdvance_fields [simp]:
  "currentIndex (pauseAutoAdvance s) = currentIndex s"
  "cards (pauseAutoAdvance s) = cards s"
  "indicators (pauseAutoAdvance s) = indicators s"
  "progressFill (pauseAutoAdvance s) = progressFill s"
  "autoAdvanceInterval (pauseAutoAdvance s) = None"
  "progressInterval (pauseAutoAdvance s) = None"
  "autoAdvanceDelay (pauseAutoAdvance s) = autoAdvanceDelay s"
  "isPaused (pauseAutoAdvance s) = True"
  "nextTimerId (pauseAutoAdvance s) = nextTimerId s"
  by (simp_all add: pauseAutoAdvance_def Let_def split: option.splits)

lemma pause_timers:
  "timers (pauseAutoAdvance s) =
     filter (\<lambda>t. Some (tid t) \<noteq> autoAdvanceInterval s \<and> Some (tid t) \<noteq> progressInterval s) (timers s)"
  by (auto simp: pauseAutoAdvance_def Let_def split: option.splits intro: filter_cong)

lemma tempPause_timers:
  "timers (tempPauseAutoAdvance s) =
     filter (\<lambda>t. Some (tid t) \<noteq> autoAdvanceInterval s \<and> Some (tid t) \<noteq> progressInterval s) (timers s)"
  by (auto simp: tempPauseAutoAdvance_def Let_def split: option.splits intro: filter_cong)

lemma resumeAutoAdvance_fields [simp]:
  "currentIndex (resumeAutoAdvance s) = currentIndex s"
  "cards (resumeAutoAdvance s) = cards s"
  "indicators (resumeAutoAdvance s) = indicators s"
  "autoAdvanceDelay (resumeAutoAdvance s) = autoAdvanceDelay s"
  "isPaused (resumeAutoAdvance s) = False"
  by (simp_all add: resumeAutoAdvance_def Let_def)

lemma resume_paused:
  "isPaused s \<Longrightarrow> resumeAutoAdvance s = s\<lparr>isPaused := False\<rparr>"
  by (simp add: resumeAutoAdvance_def)

lemma goToSlide_ok:
  assumes "currentIndex s < length (cards s)" and "i < length (cards s)"
  shows "\<not> threw (goToSlide i s)"
    and "currentIndex (state_of (goToSlide i s)) = i"
    and "length (cards (state_of (goToSlide i s))) = length (cards s)"
  using assms by (simp_all add: goToSlide_def Let_def setTimeout_def)

lemma goToSlide_length [simp]:
  "length (cards (state_of (goToSlide i s))) = length (cards s)"
  by (simp add: goToSlide_def Let_def setTimeout_def)

section \<open>Navigation\<close>

lemma index_pos:
  "currentIndex s < length (cards s) \<Longrightarrow> 0 < length (cards s)"
  by linarith

lemma goToNext_index:
  assumes "currentIndex s < length (cards s)"
  shows "currentIndex (state_of (goToNext s)) = (currentIndex s + 1) mod length (cards s)"
proof -
  have "(currentIndex s + 1) mod length (cards s) < length (cards s)"
    using index_pos [OF assms] by (rule mod_less_divisor)
  then show ?thesis
    using assms unfolding goToNext_def Let_def by (rule goToSlide_ok(2) [rotated])
qed

lemma goToPrevious_index:
  assumes "currentIndex s < length (cards s)"
  shows "int (currentIndex (state_of (goToPrevious s))) =
           (int (currentIndex s) - 1 + int (length (cards s))) mod int (length (cards s))"
proof -
  let ?n = "int (length (cards s))"
  let ?p = "(int (currentIndex s) - 1 + ?n) mod ?n"
  have pos: "0 < ?n" using index_pos [OF assms] by linarith
  have nonneg: "0 \<le> ?p" using pos by (rule pos_mod_sign)
  have "?p < ?n" using pos by (rule pos_mod_bound)
  with nonneg have "nat ?p < length (cards s)" by linarith
  with assms have "currentIndex (state_of (goToSlide (nat ?p) s)) = nat ?p"
    by (rule goToSlide_ok(2))
  then have "currentIndex (state_of (goToPrevious s)) = nat ?p"
    by (simp add: goToPrevious_def Let_def)
  with nonneg show ?thesis by simp
qed

lemma goToNext_length [simp]:
  "length (cards (state_of (goToNext s))) = length (cards s)"
  by (simp add: goToNext_def)

lemma goToNext_funpow:
  assumes "currentIndex s < length (cards s)"
  shows "length (cards (((\<lambda>s. state_of (goToNext s)) ^^ k) s)) = length (cards s) \<and>
         currentIndex (((\<lambda>s. state_of (goToNext s)) ^^ k) s) = (currentIndex s + k) mod length (cards s)"
proof (induction k)
  case 0
  then show ?case using assms by simp
next
  case (Suc k)
  let ?t = "((\<lambda>s. state_of (goToNext s)) ^^ k) s"
  have len: "length (cards ?t) = length (cards s)" using Suc by simp
  have idx: "currentIndex ?t = (currentIndex s + k) mod length (cards s)" using Suc by simp
  have "currentIndex ?t < length (cards ?t)" using index_pos [OF assms] len idx by simp
  then have "currentIndex (state_of (goToNext ?t)) = (currentIndex ?t + 1) mod length (cards ?t)"
    by (rule goToNext_index)
  then show ?case using len idx by (simp add: mod_Suc_eq)
qed

lemma perform_GoToNext: "perform GoToNext = (\<lambda>s. state_of (goToNext s))"
  by (rule ext) simp

lemma cycle_indices:
  assumes "0 < (n::nat)"
  shows "map (\<lambda>k. k mod n) [1..<Suc n] = [1..<n] @ [0]"
proof -
  have "map (\<lambda>k. k mod n) [1..<n] = [1..<n]"
    by (rule map_idI) simp
  then show ?thesis using assms by simp
qed

text \<open>
  Claim C5. With the current index on a card, \<^verbatim>\<open>goToNext\<close> moves it to
  \<open>(currentIndex + 1) mod N\<close> and \<^verbatim>\<open>goToPrevious\<close> to \<open>(currentIndex - 1 + N) mod N\<close>,
  where \<open>N\<close> is the number of cards. From index 0, the indices after 1, 2, ..., N
  calls of \<^verbatim>\<open>goToNext\<close> are 1, 2, ..., N - 1, 0: every ordinal once, ending at 0;
  and \<^verbatim>\<open>goToPrevious\<close> from index 0 gives N - 1.
\<close>

theorem goToNext_goToPrevious_wrap:
  assumes "currentIndex s < length (cards s)"
  shows "currentIndex (perform GoToNext s) = (currentIndex s + 1) mod length (cards s) \<and>
         int (currentIndex (perform GoToPrevious s)) =
           (int (currentIndex s) - 1 + int (length (cards s))) mod int (length (cards s)) \<and>
         (currentIndex s = 0 \<longrightarrow>
            map (\<lambda>k. currentIndex (((perform GoToNext) ^^ k) s)) [1..<Suc (length (cards s))]
              = [1..<length (cards s)] @ [0] \<and>
            currentIndex (((perform GoToNext) ^^ length (cards s)) s) = 0 \<and>
            currentIndex (perform GoToPrevious s) = length (cards s) - 1)"
proof (intro conjI impI)
  have pos: "0 < length (cards s)" using assms by (rule index_pos)
  show "currentIndex (perform GoToNext s) = (currentIndex s + 1) mod length (cards s)"
    using goToNext_index [OF assms] by simp
  show prev: "int (currentIndex (perform GoToPrevious s)) =
           (int (currentIndex s) - 1 + int (length (cards s))) mod int (length (cards s))"
    using goToPrevious_index [OF assms] by simp
  {
    assume z: "currentIndex s = 0"
    have "map (\<lambda>k. currentIndex (((perform GoToNext) ^^ k) s)) [1..<Suc (length (cards s))]
            = map (\<lambda>k. k mod length (cards s)) [1..<Suc (length (cards s))]"
      unfolding perform_GoToNext using goToNext_funpow [OF assms] z by simp
    then show "map (\<lambda>k. currentIndex (((perform GoToNext) ^^ k) s)) [1..<Suc (length (cards s))]
              = [1..<length (cards s)] @ [0]"
      using cycle_indices [OF pos] by (rule trans)
    show "currentIndex (((perform GoToNext) ^^ length (cards s)) s) = 0"
      unfolding perform_GoToNext using goToNext_funpow [OF assms, of "length (cards s)"] z by simp
    have "int (currentIndex (perform GoToPrevious s)) = (int (length (cards s)) - 1) mod int (length (cards s))"
      using prev z by simp
    also have "\<dots> = int (length (cards s)) - 1"
      using pos by (intro mod_pos_pos_trivial) linarith+
    finally show "currentIndex (perform GoToPrevious s) = length (cards s) - 1"
      using pos by linarith
  }
qed

lemma examplePage_start:
  "currentIndex (constructor examplePage) = 0"
  "length (cards (constructor examplePage)) = 3"
  by (simp_all add: constructor_def examplePage_def init_def Let_def)

text \<open>The same at the example page: three slides, the indices after one, two and
  three calls of \<^verbatim>\<open>goToNext\<close> are 1, 2, 0.\<close>

theorem goToNext_goToPrevious_wrap_witness:
  "currentIndex (constructor examplePage) < length (cards (constructor examplePage)) \<and>
   currentIndex (perform GoToNext (constructor examplePage)) = 1 \<and>
   currentIndex (perform GoToPrevious (constructor examplePage)) = 2 \<and>
   map (\<lambda>k. currentIndex (((perform GoToNext) ^^ k) (constructor examplePage))) [1..<4] = [1, 2, 0]"
proof -
  have h: "currentIndex (constructor examplePage) < length (cards (constructor examplePage))"
    by (simp add: examplePage_start)
  have three: "[Suc 0..<4] = [Suc 0, 2, 3]" "[Suc 0..<3] = [Suc 0, 2]"
    by (simp_all add: upt_rec)
  show ?thesis
    using h goToNext_goToPrevious_wrap [OF h]
    by (simp add: examplePage_start three del: perform.simps upt_Suc)
qed

section \<open>The timers\<close>

lemma no_auto_iff: "liveAutoAdvance s = [] \<longleftrightarrow> (\<forall>t \<in> set (timers s). callback t \<noteq> AutoAdvance)"
  by (simp add: liveAutoAdvance_def filter_empty_conv)

lemma no_progress_iff: "liveProgress s = [] \<longleftrightarrow> (\<forall>t \<in> set (timers s). \<not> isProgress (callback t))"
  by (simp add: liveProgress_def filter_empty_conv)

lemma timers_ok_filter:
  assumes "timers_ok s"
    and "timers s' = filter P (timers s)"
    and "nextTimerId s' = nextTimerId s"
    and "autoAdvanceInterval s' = autoAdvanceInterval s \<or> liveAutoAdvance s' = []"
    and "progressInterval s' = progressInterval s \<or> liveProgress s' = []"
  shows "timers_ok s'"
proof -
  have d: "distinct (map tid (timers s'))"
    using assms(1) unfolding timers_ok_def assms(2) by (simp add: distinct_map_filter)
  have "tid t < nextTimerId s' \<and>
        (callback t = AutoAdvance \<longrightarrow> autoAdvanceInterval s' = Some (tid t)) \<and>
        (isProgress (callback t) \<longrightarrow> progressInterval s' = Some (tid t))"
    if "t \<in> set (timers s')" for t
  proof -
    have m: "t \<in> set (timers s)" using that assms(2) by simp
    have a: "tid t < nextTimerId s" 
      and b: "callback t = AutoAdvance \<longrightarrow> autoAdvanceInterval s = Some (tid t)"
      and c: "isProgress (callback t) \<longrightarrow> progressInterval s = Some (tid t)"
      using assms(1) m unfolding timers_ok_def by blast+
    show ?thesis
      using a b c assms(3,4,5) that unfolding no_auto_iff no_progress_iff by metis
  qed
  with d show ?thesis unfolding timers_ok_def by blast
qed

lemma timers_ok_eq:
  assumes "timers s' = timers s"
    and "nextTimerId s' = nextTimerId s"
    and "autoAdvanceInterval s' = autoAdvanceInterval s"
    and "progressInterval s' = progressInterval s"
  shows "timers_ok s' = timers_ok s"
  unfolding timers_ok_def assms by (rule refl)

lemma clearInterval_ok: "timers_ok s \<Longrightarrow> timers_ok (clearInterval h s)"
  by (erule timers_ok_filter [where P = "\<lambda>t. tid t \<noteq> h"]) simp_all

lemma resetProgress_timers:
  "timers (resetProgress s) = filter (\<lambda>t. Some (tid t) \<noteq> progressInterval s) (timers s)"
  by (cases "progressInterval s") simp_all

lemma resetProgress_ok: "timers_ok s \<Longrightarrow> timers_ok (resetProgress s)"
  by (erule timers_ok_filter [where P = "\<lambda>t. Some (tid t) \<noteq> progressInterval s"])
     (simp_all add: resetProgress_timers del: resetProgress_fields(10))

lemma resetProgress_no_progress:
  assumes "timers_ok s"
  shows "liveProgress (resetProgress s) = []"
  unfolding no_progress_iff resetProgress_timers
  using assms unfolding timers_ok_def by auto

lemma resetProgress_no_auto:
  assumes "liveAutoAdvance s = []"
  shows "liveAutoAdvance (resetProgress s) = []"
  using assms unfolding no_auto_iff resetProgress_timers by simp

lemma pauseAutoAdvance_ok:
  assumes "timers_ok s"
  shows "timers_ok (pauseAutoAdvance s)"
    and "liveAutoAdvance (pauseAutoAdvance s) = []"
    and "liveProgress (pauseAutoAdvance s) = []"
proof -
  show a: "liveAutoAdvance (pauseAutoAdvance s) = []"
    unfolding no_auto_iff pause_timers using assms unfolding timers_ok_def by auto
  show p: "liveProgress (pauseAutoAdvance s) = []"
    unfolding no_progress_iff pause_timers using assms unfolding timers_ok_def by auto
  show "timers_ok (pauseAutoAdvance s)"
    using assms pause_timers by (rule timers_ok_filter) (simp_all add: a p)
qed

lemma tempPauseAutoAdvance_ok:
  assumes "timers_ok s"
  shows "timers_ok (tempPauseAutoAdvance s)"
    and "liveAutoAdvance (tempPauseAutoAdvance s) = []"
    and "liveProgress (tempPauseAutoAdvance s) = []"
proof -
  show a: "liveAutoAdvance (tempPauseAutoAdvance s) = []"
    unfolding no_auto_iff tempPause_timers using assms unfolding timers_ok_def by auto
  show p: "liveProgress (tempPauseAutoAdvance s) = []"
    unfolding no_progress_iff tempPause_timers using assms unfolding timers_ok_def by auto
  show "timers_ok (tempPauseAutoAdvance s)"
    using assms tempPause_timers by (rule timers_ok_filter) (simp_all add: a p)
qed

lemma timers_ok_append:
  assumes "timers_ok s"
    and "timers s' = timers s @ [t]"
    and "tid t = nextTimerId s"
    and "nextTimerId s' = Suc (nextTimerId s)"
    and "if callback t = AutoAdvance
         then liveAutoAdvance s = [] \<and> autoAdvanceInterval s' = Some (tid t)
         else autoAdvanceInterval s' = autoAdvanceInterval s"
    and "if isProgress (callback t)
         then liveProgress s = [] \<and> progressInterval s' = Some (tid t)
         else progressInterval s' = progressInterval s"
  shows "timers_ok s'"
proof -
  have old: "tid u < nextTimerId s \<and>
             (callback u = AutoAdvance \<longrightarrow> autoAdvanceInterval s = Some (tid u)) \<and>
             (isProgress (callback u) \<longrightarrow> progressInterval s = Some (tid u))"
    if "u \<in> set (timers s)" for u
    using assms(1) that unfolding timers_ok_def by blast
  have fresh: "tid t \<notin> tid ` set (timers s)"
    using old assms(3) by fastforce
  have d: "distinct (map tid (timers s'))"
    using assms(1) fresh unfolding timers_ok_def assms(2) by simp
  have "tid u < nextTimerId s' \<and>
        (callback u = AutoAdvance \<longrightarrow> autoAdvanceInterval s' = Some (tid u)) \<and>
        (isProgress (callback u) \<longrightarrow> progressInterval s' = Some (tid u))"
    if "u \<in> set (timers s')" for u
  proof (cases "u = t")
    case True
    then show ?thesis using assms(3,4,5,6) by (simp split: if_splits)
  next
    case False
    then have m: "u \<in> set (timers s)" using that assms(2) by simp
    have na: "callback t = AutoAdvance \<Longrightarrow> callback u \<noteq> AutoAdvance"
      using assms(5) m unfolding no_auto_iff by (simp split: if_splits)
    have np: "isProgress (callback t) \<Longrightarrow> \<not> isProgress (callback u)"
      using assms(6) m unfolding no_progress_iff by (simp split: if_splits)
    show ?thesis
      using old [OF m] assms(4,5,6) na np by (auto split: if_splits)
  qed
  with d show ?thesis unfolding timers_ok_def by blast
qed

lemma startProgress_ok:
  assumes "timers_ok s" and "liveProgress s = []"
  shows "timers_ok (startProgress s)"
  using assms(1)
  by (rule timers_ok_append [where t = "\<lparr>tid = nextTimerId s, delay = 100, repeating = True,
                  callback = Progress 0 (fl (100 / fl (autoAdvanceDelay s / 100)))\<rparr>"])
     (simp_all add: assms(2) isProgress_def)

lemma startProgress_no_auto:
  assumes "liveAutoAdvance s = []"
  shows "liveAutoAdvance (startProgress s) = []"
  using assms unfolding no_auto_iff by simp

lemma startAutoAdvance_ok:
  assumes "timers_ok s" and "liveAutoAdvance s = []"
  shows "timers_ok (startAutoAdvance s)"
proof -
  let ?r = "resetProgress s"
  let ?p = "startProgress ?r"
  have "timers_ok ?r" using assms(1) by (rule resetProgress_ok)
  moreover have "liveProgress ?r = []" using assms(1) by (rule resetProgress_no_progress)
  ultimately have ok: "timers_ok ?p" by (rule startProgress_ok)
  have na: "liveAutoAdvance ?p = []"
    using assms(2) by (intro startProgress_no_auto resetProgress_no_auto)
  show ?thesis
    using ok
    by (rule timers_ok_append [where t = "\<lparr>tid = Suc (nextTimerId s), delay = autoAdvanceDelay s,
                                          repeating = True, callback = AutoAdvance\<rparr>"])
       (simp_all add: na isProgress_def del: resetProgress_fields(10))
qed

lemma resumeAutoAdvance_ok:
  assumes "timers_ok s"
  shows "timers_ok (resumeAutoAdvance s)"
proof (cases "isPaused s")
  case True
  have "timers_ok (s\<lparr>isPaused := False\<rparr>) = timers_ok s"
    by (rule timers_ok_eq) simp_all
  then show ?thesis using assms by (simp add: resume_paused [OF True])
next
  case False
  have ok: "timers_ok (startAutoAdvance (pauseAutoAdvance s))"
    using pauseAutoAdvance_ok(1,2) [OF assms] by (rule startAutoAdvance_ok)
  have "timers_ok ((startAutoAdvance (pauseAutoAdvance s))\<lparr>isPaused := False\<rparr>)
          = timers_ok (startAutoAdvance (pauseAutoAdvance s))"
    by (rule timers_ok_eq) simp_all
  then show ?thesis using False ok by (simp add: resumeAutoAdvance_def)
qed

lemma goToSlide_timers_ok:
  assumes "timers_ok s"
  shows "timers_ok (state_of (goToSlide i s))"
proof -
  let ?t = "\<lparr>tid = nextTimerId s, delay = 600, repeating = False, callback = ClearPrev\<rparr>"
  have app: "timers_ok m"
    if "timers m = timers s @ [?t]" "nextTimerId m = Suc (nextTimerId s)"
       "autoAdvanceInterval m = autoAdvanceInterval s" "progressInterval m = progressInterval s"
    for m
    using assms that(1) by (rule timers_ok_append) (simp_all add: that isProgress_def)
  show ?thesis
    unfolding goToSlide_def Let_def setTimeout_def
    by (auto intro!: resumeAutoAdvance_ok resetProgress_ok app simp: assms)
qed

lemma goToNext_timers_ok: "timers_ok s \<Longrightarrow> timers_ok (state_of (goToNext s))"
  unfolding goToNext_def Let_def by (rule goToSlide_timers_ok)

lemma goToPrevious_timers_ok: "timers_ok s \<Longrightarrow> timers_ok (state_of (goToPrevious s))"
  unfolding goToPrevious_def Let_def by (rule goToSlide_timers_ok)

lemma cards_update_timers_ok:
  "timers_ok (s\<lparr>cards := cs\<rparr>) = timers_ok s"
  by (rule timers_ok_eq) simp_all

lemma toggle_timers_ok: "timers_ok s \<Longrightarrow> timers_ok (toggle k s)"
  unfolding toggle_def
  by (auto split: option.splits intro!: resumeAutoAdvance_ok pauseAutoAdvance_ok(1)
           simp: cards_update_timers_ok)

lemma mouseenter_timers_ok: "timers_ok s \<Longrightarrow> timers_ok (state_of (mouseenter s))"
  unfolding mouseenter_def by (auto intro!: tempPauseAutoAdvance_ok(1))

lemma mouseleave_timers_ok: "timers_ok s \<Longrightarrow> timers_ok (state_of (mouseleave s))"
  unfolding mouseleave_def by (auto intro!: resumeAutoAdvance_ok)

lemma find_timer:
  assumes "find (\<lambda>t. tid t = h) ts = Some t"
  shows "t \<in> set ts" and "tid t = h"
  using assms by (auto simp: find_Some_iff)

lemma same_tid:
  assumes "distinct (map tid ts)" and "t \<in> set ts" and "u \<in> set ts" and "tid u = tid t"
  shows "u = t"
  using assms by (meson distinct_map inj_onD)

lemma progress_tick_timers_ok:
  assumes ok: "timers_ok s"
    and f: "find (\<lambda>t. tid t = h) (timers s) = Some t"
    and cb: "callback t = Progress p inc"
    and ts: "timers s' = map (\<lambda>u. if tid u = h then u\<lparr>callback := Progress q inc\<rparr> else u) (timers s)"
    and same: "nextTimerId s' = nextTimerId s" "autoAdvanceInterval s' = autoAdvanceInterval s"
              "progressInterval s' = progressInterval s"
  shows "timers_ok s'"
proof -
  let ?f = "\<lambda>u. if tid u = h then u\<lparr>callback := Progress q inc\<rparr> else u"
  have tid_f: "tid (?f u) = tid u" for u by simp
  have "map tid (timers s') = map tid (timers s)"
    unfolding ts by (simp add: comp_def)
  then have d: "distinct (map tid (timers s'))"
    using ok unfolding timers_ok_def by simp
  have dist: "distinct (map tid (timers s))" using ok unfolding timers_ok_def by simp
  have old: "tid u < nextTimerId s \<and>
             (callback u = AutoAdvance \<longrightarrow> autoAdvanceInterval s = Some (tid u)) \<and>
             (isProgress (callback u) \<longrightarrow> progressInterval s = Some (tid u))"
    if "u \<in> set (timers s)" for u
    using ok that unfolding timers_ok_def by blast
  have "tid v < nextTimerId s' \<and>
        (callback v = AutoAdvance \<longrightarrow> autoAdvanceInterval s' = Some (tid v)) \<and>
        (isProgress (callback v) \<longrightarrow> progressInterval s' = Some (tid v))"
    if "v \<in> set (timers s')" for v
  proof -
    from that obtain u where u: "u \<in> set (timers s)" and v: "v = ?f u"
      unfolding ts by auto
    show ?thesis
    proof (cases "tid u = h")
      case True
      then have "u = t"
        using same_tid [OF dist find_timer(1) [OF f] u] find_timer(2) [OF f] by simp
      then have "isProgress (callback u)" using cb by (simp add: isProgress_def)
      then have "progressInterval s = Some (tid u)" and "tid u < nextTimerId s"
        using old [OF u] by simp_all
      then show ?thesis using True v same by simp
    next
      case False
      then show ?thesis using old [OF u] v same by simp
    qed
  qed
  with d show ?thesis unfolding timers_ok_def by blast
qed

lemma fire_timers_ok:
  assumes "timers_ok s"
  shows "timers_ok (state_of (fire h s))"
proof (cases "find (\<lambda>t. tid t = h) (timers s)")
  case None
  then show ?thesis using assms by (simp add: fire_def)
next
  case (Some t)
  show ?thesis
  proof (cases "callback t")
    case AutoAdvance
    then show ?thesis using Some assms by (simp add: fire_def goToNext_timers_ok)
  next
    case (Progress p inc)
    let ?s' = "state_of (fire h s)"
    have "timers ?s' = map (\<lambda>u. if tid u = h then u\<lparr>callback := Progress (tick p inc) inc\<rparr> else u) (timers s)"
      and "nextTimerId ?s' = nextTimerId s"
      and "autoAdvanceInterval ?s' = autoAdvanceInterval s"
      and "progressInterval ?s' = progressInterval s"
      using Some Progress by (simp_all add: fire_def Let_def split: option.splits)
    with assms Some Progress show ?thesis by (rule progress_tick_timers_ok)
  next
    case ClearPrev
    let ?s' = "state_of (fire h s)"
    have "timers ?s' = filter (\<lambda>u. tid u \<noteq> h) (timers s)"
      and "nextTimerId ?s' = nextTimerId s"
      and "autoAdvanceInterval ?s' = autoAdvanceInterval s"
      and "progressInterval ?s' = progressInterval s"
      using Some ClearPrev by (simp_all add: fire_def Let_def)
    with assms show ?thesis by (intro timers_ok_filter [of s ?s']) simp_all
  qed
qed

lemma constructor_timers_ok: "timers_ok (constructor doc)"
proof -
  have empty: "timers_ok s" "liveAutoAdvance s = []" if "timers s = []" for s
    using that by (simp_all add: timers_ok_def liveAutoAdvance_def)
  show ?thesis
    unfolding constructor_def Let_def init_def
    by (simp add: empty startAutoAdvance_ok)
qed

lemma perform_timers_ok: "timers_ok s \<Longrightarrow> timers_ok (perform op s)"
  by (cases op)
     (simp_all add: goToSlide_timers_ok goToNext_timers_ok goToPrevious_timers_ok
        toggle_timers_ok mouseenter_timers_ok mouseleave_timers_ok resumeAutoAdvance_ok
        fire_timers_ok)

lemma reachable_timers_ok: "reachable doc s \<Longrightarrow> timers_ok s"
  by (induction rule: reachable.induct) (simp_all add: constructor_timers_ok perform_timers_ok)

lemma at_most_one:
  assumes "distinct (map tid ts)" and "\<forall>t \<in> set ts. P t \<longrightarrow> tid t = h"
  shows "length (filter P ts) \<le> 1"
  using assms
proof (induction ts)
  case Nil
  then show ?case by simp
next
  case (Cons t ts)
  show ?case
  proof (cases "P t")
    case False
    then show ?thesis using Cons by simp
  next
    case True
    then have h: "tid t = h" using Cons.prems by simp
    have "tid t \<notin> tid ` set ts" using Cons.prems(1) by simp
    then have "\<forall>u \<in> set ts. \<not> P u"
      using Cons.prems(2) h by (metis imageI list.set_intros(2))
    then have "filter P ts = []" by (simp add: filter_empty_conv)
    then show ?thesis by simp
  qed
qed

lemma timers_ok_at_most_one:
  assumes "timers_ok s"
  shows "length (liveAutoAdvance s) \<le> 1" and "length (liveProgress s) \<le> 1"
proof -
  have d: "distinct (map tid (timers s))" using assms unfolding timers_ok_def by simp
  show "length (liveAutoAdvance s) \<le> 1"
  proof (cases "autoAdvanceInterval s")
    case None
    then have "liveAutoAdvance s = []"
      using assms unfolding no_auto_iff timers_ok_def by auto
    then show ?thesis by simp
  next
    case (Some h)
    then have "\<forall>t \<in> set (timers s). callback t = AutoAdvance \<longrightarrow> tid t = h"
      using assms unfolding timers_ok_def by auto
    with d show ?thesis unfolding liveAutoAdvance_def by (rule at_most_one)
  qed
  show "length (liveProgress s) \<le> 1"
  proof (cases "progressInterval s")
    case None
    then have "liveProgress s = []"
      using assms unfolding no_progress_iff timers_ok_def by auto
    then show ?thesis by simp
  next
    case (Some h)
    then have "\<forall>t \<in> set (timers s). isProgress (callback t) \<longrightarrow> tid t = h"
      using assms unfolding timers_ok_def by auto
    with d show ?thesis unfolding liveProgress_def by (rule at_most_one)
  qed
qed

text \<open>
  Claim C9. In every state reached from the constructor by the operations of the
  carousel (\<^verbatim>\<open>goToSlide\<close> with any index, \<^verbatim>\<open>goToNext\<close>, \<^verbatim>\<open>goToPrevious\<close>, a details
  toggle, pointer enter and leave, \<^verbatim>\<open>resumeAutoAdvance\<close>, a timer or timeout firing)
  at most one auto-advance timer and at most one progress timer are live, and a live
  one is the timer that its handle names; so \<^verbatim>\<open>pauseAutoAdvance\<close>, which
  \<^verbatim>\<open>resumeAutoAdvance\<close> calls before \<^verbatim>\<open>startAutoAdvance\<close>, leaves no live timer of
  either kind behind when the new ones are created.
\<close>

theorem one_timer_of_each_kind:
  assumes "reachable doc s"
  shows "length (liveAutoAdvance s) \<le> 1 \<and> length (liveProgress s) \<le> 1 \<and>
         set (map tid (liveAutoAdvance s)) \<subseteq> set_option (autoAdvanceInterval s) \<and>
         set (map tid (liveProgress s)) \<subseteq> set_option (progressInterval s) \<and>
         liveAutoAdvance (pauseAutoAdvance s) = [] \<and> liveProgress (pauseAutoAdvance s) = []"
proof -
  have ok: "timers_ok s" using assms by (rule reachable_timers_ok)
  have "set (map tid (liveAutoAdvance s)) \<subseteq> set_option (autoAdvanceInterval s)"
    using ok unfolding timers_ok_def liveAutoAdvance_def by auto
  moreover have "set (map tid (liveProgress s)) \<subseteq> set_option (progressInterval s)"
    using ok unfolding timers_ok_def liveProgress_def by auto
  ultimately show ?thesis
    using timers_ok_at_most_one [OF ok] pauseAutoAdvance_ok(2,3) [OF ok] by simp
qed

lemma reachable_run: "reachable doc s \<Longrightarrow> reachable doc (run ops s)"
  by (induction ops arbitrary: s) (simp_all add: reachable.step)

lemmas carousel_defs =
  constructor_def init_def startAutoAdvance_def startProgress_def resetProgress_def
  pauseAutoAdvance_def tempPauseAutoAdvance_def resumeAutoAdvance_def
  goToSlide_def goToNext_def goToPrevious_def toggle_def mouseenter_def mouseleave_def
  fire_def setInterval_def setTimeout_def clearInterval_def collapse_def isExpanded_def
  querySelectorAll_indicator_def Let_def

lemmas example_defs = examplePage_def activeCard_def idleCard_def plainIndicator_def

text \<open>At the example page: a panel is opened and closed again, the pointer leaves,
  and the slide is changed; then the timers 6 (progress) and 7 (auto-advance) are
  live besides the timeout of the transition.\<close>

theorem one_timer_of_each_kind_witness:
  "reachable examplePage (run [Toggle 0, Toggle 0, MouseLeave, GoToNext] (constructor examplePage)) \<and>
   map tid (liveAutoAdvance (run [Toggle 0, Toggle 0, MouseLeave, GoToNext] (constructor examplePage))) = [7] \<and>
   map tid (liveProgress (run [Toggle 0, Toggle 0, MouseLeave, GoToNext] (constructor examplePage))) = [6] \<and>
   autoAdvanceInterval (run [Toggle 0, Toggle 0, MouseLeave, GoToNext] (constructor examplePage)) = Some 7 \<and>
   progressInterval (run [Toggle 0, Toggle 0, MouseLeave, GoToNext] (constructor examplePage)) = Some 6"
proof -
  have r: "reachable examplePage (run [Toggle 0, Toggle 0, MouseLeave, GoToNext] (constructor examplePage))"
    by (rule reachable_run) (rule reachable.start)
  show ?thesis
    using r one_timer_of_each_kind [OF r]
    by (simp add: carousel_defs example_defs liveAutoAdvance_def liveProgress_def isProgress_def)
qed

text \<open>The invariant rests on \<^verbatim>\<open>init\<close> running once, in the constructor:
  \<^verbatim>\<open>startAutoAdvance\<close> itself clears the progress timer only, and a second \<^verbatim>\<open>init\<close> on
  the running carousel would leave two auto-advance timers.\<close>

lemma second_init_leaves_two_auto_advance_timers:
  "map tid (liveAutoAdvance (init (constructor examplePage))) = [2, 4] \<and>
   map tid (liveProgress (init (constructor examplePage))) = [3]"
  by (simp add: carousel_defs example_defs liveAutoAdvance_def liveProgress_def isProgress_def)

section \<open>Pausing\<close>

lemma goToSlide_isPaused:
  "isPaused (state_of (goToSlide i s)) \<Longrightarrow> isPaused s"
  by (simp add: goToSlide_def Let_def setTimeout_def split: if_splits)

lemma fire_isPaused:
  "isPaused (state_of (fire h s)) \<Longrightarrow> isPaused s"
  by (auto simp: fire_def Let_def goToNext_def split: option.splits callback.splits if_splits
           dest: goToSlide_isPaused)

lemma perform_isPaused:
  assumes "isPaused (perform op s)" and "\<not> isPaused s"
  shows "\<exists>k. op = Toggle k"
proof (cases op)
  case (GoToSlide i)
  then show ?thesis using assms goToSlide_isPaused by auto
next
  case GoToNext
  then show ?thesis using assms goToSlide_isPaused by (auto simp: goToNext_def)
next
  case GoToPrevious
  then show ?thesis using assms goToSlide_isPaused by (auto simp: goToPrevious_def)
next
  case (Toggle k)
  then show ?thesis by simp
next
  case MouseEnter
  then show ?thesis using assms by (auto simp: mouseenter_def split: if_splits)
next
  case MouseLeave
  then show ?thesis using assms by (auto simp: mouseleave_def split: if_splits)
next
  case ResumeAutoAdvance
  then show ?thesis using assms by simp
next
  case (Fire h)
  then show ?thesis using assms fire_isPaused by auto
qed

text \<open>
  Claim C8. \<^verbatim>\<open>tempPauseAutoAdvance\<close> clears both handles and removes the timers they
  name from the timer table (in a reachable state no auto-advance or progress timer
  is live afterwards), and leaves \<^verbatim>\<open>isPaused\<close> as it is. The pointer-enter handler
  leaves \<^verbatim>\<open>isPaused\<close> as it is too, and is \<^verbatim>\<open>tempPauseAutoAdvance\<close> when the panel of
  the current slide is not open. Of all operations only a details toggle can turn
  \<^verbatim>\<open>isPaused\<close> from false to true.
\<close>

theorem hover_pause_keeps_isPaused:
  "isPaused (tempPauseAutoAdvance s) = isPaused s \<and>
   autoAdvanceInterval (tempPauseAutoAdvance s) = None \<and>
   progressInterval (tempPauseAutoAdvance s) = None \<and>
   timers (tempPauseAutoAdvance s) =
     filter (\<lambda>t. Some (tid t) \<noteq> autoAdvanceInterval s \<and> Some (tid t) \<noteq> progressInterval s) (timers s) \<and>
   isPaused (perform MouseEnter s) = isPaused s \<and>
   (currentIndex s < length (cards s) \<and> \<not> isExpanded (cards s ! currentIndex s)
      \<longrightarrow> perform MouseEnter s = tempPauseAutoAdvance s) \<and>
   (\<forall>doc. reachable doc s \<longrightarrow>
      liveAutoAdvance (tempPauseAutoAdvance s) = [] \<and> liveProgress (tempPauseAutoAdvance s) = []) \<and>
   (\<forall>op. \<not> isPaused s \<and> isPaused (perform op s) \<longrightarrow> (\<exists>k. op = Toggle k))"
proof (intro conjI allI impI)
  show "liveAutoAdvance (tempPauseAutoAdvance s) = []" if "reachable doc s" for doc
    using that by (intro tempPauseAutoAdvance_ok(2) reachable_timers_ok)
  show "liveProgress (tempPauseAutoAdvance s) = []" if "reachable doc s" for doc
    using that by (intro tempPauseAutoAdvance_ok(3) reachable_timers_ok)
  show "timers (tempPauseAutoAdvance s) =
     filter (\<lambda>t. Some (tid t) \<noteq> autoAdvanceInterval s \<and> Some (tid t) \<noteq> progressInterval s) (timers s)"
    by (rule tempPause_timers)
  show "isPaused (perform MouseEnter s) = isPaused s"
    by (simp add: mouseenter_def)
  show "perform MouseEnter s = tempPauseAutoAdvance s"
    if "currentIndex s < length (cards s) \<and> \<not> isExpanded (cards s ! currentIndex s)"
    using that by (simp add: mouseenter_def)
  show "\<exists>k. op = Toggle k" if "\<not> isPaused s \<and> isPaused (perform op s)" for op
    using that perform_isPaused by blast
qed simp_all

text \<open>At the example page: the pointer enters after the construction; the timers 1
  and 2 are gone, \<^verbatim>\<open>isPaused\<close> is still false; opening the panel of slide 0 sets it.\<close>

theorem hover_pause_keeps_isPaused_witness:
  "reachable examplePage (constructor examplePage) \<and>
   currentIndex (constructor examplePage) < length (cards (constructor examplePage)) \<and>
   \<not> isExpanded (cards (constructor examplePage) ! currentIndex (constructor examplePage)) \<and>
   map tid (timers (constructor examplePage)) = [1, 2] \<and>
   timers (perform MouseEnter (constructor examplePage)) = [] \<and>
   autoAdvanceInterval (perform MouseEnter (constructor examplePage)) = None \<and>
   progressInterval (perform MouseEnter (constructor examplePage)) = None \<and>
   \<not> isPaused (constructor examplePage) \<and>
   \<not> isPaused (perform MouseEnter (constructor examplePage)) \<and>
   isPaused (perform (Toggle 0) (constructor examplePage))"
proof -
  have r: "reachable examplePage (constructor examplePage)"
    by (rule reachable.start)
  have h: "currentIndex (constructor examplePage) < length (cards (constructor examplePage)) \<and>
     \<not> isExpanded (cards (constructor examplePage) ! currentIndex (constructor examplePage))"
    by (simp add: carousel_defs example_defs)
  have e: "constructor examplePage =
     \<lparr>currentIndex = 0, cards = [activeCard, idleCard, idleCard],
      indicators = [plainIndicator\<lparr>ind_active := True\<rparr>, plainIndicator, plainIndicator],
      progressFill = Some 0, autoAdvanceInterval = Some 2, progressInterval = Some 1,
      autoAdvanceDelay = 9000, isPaused = False,
      timers = [\<lparr>tid = 1, delay = 100, repeating = True,
                  callback = Progress 0 (fl (100 / fl (9000 / 100)))\<rparr>,
                \<lparr>tid = 2, delay = 9000, repeating = True, callback = AutoAdvance\<rparr>],
      nextTimerId = 3\<rparr>"
    by (simp add: carousel_defs examplePage_def)
  have "currentIndex (constructor examplePage) < length (cards (constructor examplePage)) \<and>
   \<not> isExpanded (cards (constructor examplePage) ! currentIndex (constructor examplePage)) \<and>
   map tid (timers (constructor examplePage)) = [1, 2] \<and>
   timers (perform MouseEnter (constructor examplePage)) = [] \<and>
   autoAdvanceInterval (perform MouseEnter (constructor examplePage)) = None \<and>
   progressInterval (perform MouseEnter (constructor examplePage)) = None \<and>
   \<not> isPaused (constructor examplePage) \<and>
   \<not> isPaused (perform MouseEnter (constructor examplePage)) \<and>
   isPaused (perform (Toggle 0) (constructor examplePage))"
    using h hover_pause_keeps_isPaused [of "constructor examplePage"]
    unfolding e
    by (simp add: toggle_def pauseAutoAdvance_def clearInterval_def Let_def example_defs)
  with r show ?thesis by blast
qed

lemma goToSlide_paused_ok: "paused_ok s \<Longrightarrow> paused_ok (state_of (goToSlide i s))"
  by (simp add: paused_ok_def goToSlide_def Let_def setTimeout_def)

lemma toggle_paused_ok: "paused_ok s \<Longrightarrow> paused_ok (toggle k s)"
  by (simp add: paused_ok_def toggle_def split: option.splits)

lemma fire_paused_ok: "paused_ok s \<Longrightarrow> paused_ok (state_of (fire h s))"
proof (cases "find (\<lambda>t. tid t = h) (timers s)")
  case None
  assume "paused_ok s"
  then show ?thesis using None by (simp add: fire_def)
next
  case (Some t)
  assume p: "paused_ok s"
  show ?thesis
  proof (cases "callback t")
    case AutoAdvance
    then show ?thesis
      using Some goToSlide_paused_ok [OF p] by (simp add: fire_def goToNext_def)
  next
    case (Progress x y)
    then show ?thesis
      using Some p by (simp add: fire_def paused_ok_def Let_def split: option.splits)
  next
    case ClearPrev
    then show ?thesis
      using Some p by (simp add: fire_def paused_ok_def Let_def)
  qed
qed

lemma perform_paused_ok: "paused_ok s \<Longrightarrow> paused_ok (perform op s)"
proof (cases op)
  case (GoToSlide i)
  assume "paused_ok s"
  then show ?thesis using GoToSlide by (simp add: goToSlide_paused_ok)
next
  case GoToNext
  assume "paused_ok s"
  then show ?thesis using GoToNext by (simp add: goToNext_def goToSlide_paused_ok)
next
  case GoToPrevious
  assume "paused_ok s"
  then show ?thesis using GoToPrevious by (simp add: goToPrevious_def goToSlide_paused_ok)
next
  case (Toggle k)
  assume "paused_ok s"
  then show ?thesis using Toggle by (simp add: toggle_paused_ok)
next
  case MouseEnter
  assume "paused_ok s"
  then show ?thesis using MouseEnter by (simp add: paused_ok_def mouseenter_def)
next
  case MouseLeave
  assume "paused_ok s"
  then show ?thesis using MouseLeave by (simp add: paused_ok_def mouseleave_def)
next
  case ResumeAutoAdvance
  then show ?thesis by (simp add: paused_ok_def)
next
  case (Fire h)
  assume "paused_ok s"
  then show ?thesis using Fire by (simp add: fire_paused_ok)
qed

lemma reachable_paused_ok: "reachable doc s \<Longrightarrow> paused_ok s"
proof (induction rule: reachable.induct)
  case start
  show ?case by (simp add: paused_ok_def constructor_def init_def Let_def)
next
  case (step s op)
  then show ?case by (simp add: perform_paused_ok)
qed

lemma paused_no_timers:
  assumes "timers_ok s" and "autoAdvanceInterval s = None" and "progressInterval s = None"
  shows "liveAutoAdvance s = []" and "liveProgress s = []"
  using assms unfolding no_auto_iff no_progress_iff timers_ok_def by auto

lemma fire_no_progress:
  assumes "liveAutoAdvance s = []" and "liveProgress s = []"
  shows "progressFill (state_of (fire h s)) = progressFill s"
proof (cases "find (\<lambda>t. tid t = h) (timers s)")
  case None
  then show ?thesis by (simp add: fire_def)
next
  case (Some t)
  have "callback t \<noteq> AutoAdvance" and "\<not> isProgress (callback t)"
    using assms find_timer(1) [OF Some] unfolding no_auto_iff no_progress_iff by auto
  then have "callback t = ClearPrev"
    by (cases "callback t") (simp_all add: isProgress_def)
  then show ?thesis using Some by (simp add: fire_def Let_def)
qed

lemma collapse_not_expanded: "\<not> isExpanded (collapse c)"
  by (cases "pTextContainer c") (simp_all add: isExpanded_def collapse_def)

lemma isExpanded_update [simp]:
  "isExpanded (c\<lparr>card_active := a\<rparr>) = isExpanded c"
  "isExpanded (c\<lparr>card_prev := b\<rparr>) = isExpanded c"
  by (simp_all add: isExpanded_def)

lemma set_update_pred:
  assumes "\<forall>x \<in> set xs. P x" and "P y"
  shows "\<forall>x \<in> set (xs[n := y]). P x"
  using assms set_update_subset_insert [of xs n y] by auto

lemma goToSlide_cards:
  assumes "currentIndex s < length (cards s)" and "i < length (cards s)"
  shows "cards (state_of (goToSlide i s)) =
           (let cs = (map collapse (cards s))[currentIndex s :=
                        (collapse (cards s ! currentIndex s))\<lparr>card_active := False, card_prev := True\<rparr>]
            in cs[i := (cs ! i)\<lparr>card_active := True\<rparr>])"
  using assms by (simp add: goToSlide_def Let_def setTimeout_def)

lemma goToSlide_paused_handles:
  assumes "isPaused s" and "currentIndex s < length (cards s)" and "i < length (cards s)"
  shows "\<not> isPaused (state_of (goToSlide i s))"
    and "autoAdvanceInterval (state_of (goToSlide i s)) = autoAdvanceInterval s"
    and "progressInterval (state_of (goToSlide i s)) = progressInterval s"
  using assms by (simp_all add: goToSlide_def Let_def setTimeout_def resume_paused)

lemma goToSlide_collapses:
  assumes "currentIndex s < length (cards s)" and "i < length (cards s)"
  shows "\<forall>c \<in> set (cards (state_of (goToSlide i s))). \<not> isExpanded c"
proof -
  let ?cs = "(map collapse (cards s))[currentIndex s :=
               (collapse (cards s ! currentIndex s))\<lparr>card_active := False, card_prev := True\<rparr>]"
  have "\<forall>c \<in> set (map collapse (cards s)). \<not> isExpanded c"
    by (simp add: collapse_not_expanded)
  then have a: "\<forall>c \<in> set ?cs. \<not> isExpanded c"
    by (rule set_update_pred) (simp add: collapse_not_expanded)
  have "i < length ?cs" using assms(2) by simp
  then have "\<not> isExpanded (?cs ! i)" using a by (meson nth_mem)
  then have "\<not> isExpanded ((?cs ! i)\<lparr>card_active := True\<rparr>)" by simp
  with a have "\<forall>c \<in> set (?cs[i := (?cs ! i)\<lparr>card_active := True\<rparr>]). \<not> isExpanded c"
    by (rule set_update_pred)
  then show ?thesis
    unfolding goToSlide_cards [OF assms] Let_def .
qed

text \<open>
  Claim C2, as the code has it. In a reachable state with \<^verbatim>\<open>isPaused\<close> set, no
  auto-advance or progress timer is live, so no timer that fires changes the progress
  fill. \<^verbatim>\<open>goToSlide\<close> to a slide then closes every panel and clears \<^verbatim>\<open>isPaused\<close>, but
  it does not restart the timers: both handles stay null and no auto-advance or
  progress timer is live after the call. The next call of \<^verbatim>\<open>resumeAutoAdvance\<close> (the
  next navigation, or the pointer leaving the carousel) starts one timer of each kind.
\<close>

theorem goToSlide_while_paused:
  assumes "reachable doc s" and "isPaused s"
    and "currentIndex s < length (cards s)" and "i < length (cards s)"
  shows "liveAutoAdvance s = [] \<and> liveProgress s = [] \<and>
         (\<forall>h. progressFill (perform (Fire h) s) = progressFill s) \<and>
         (\<forall>c \<in> set (cards (perform (GoToSlide i) s)). \<not> isExpanded c) \<and>
         \<not> isPaused (perform (GoToSlide i) s) \<and>
         autoAdvanceInterval (perform (GoToSlide i) s) = None \<and>
         progressInterval (perform (GoToSlide i) s) = None \<and>
         liveAutoAdvance (perform (GoToSlide i) s) = [] \<and>
         liveProgress (perform (GoToSlide i) s) = [] \<and>
         length (liveAutoAdvance (resumeAutoAdvance (perform (GoToSlide i) s))) = 1 \<and>
         length (liveProgress (resumeAutoAdvance (perform (GoToSlide i) s))) = 1"
proof -
  let ?s' = "perform (GoToSlide i) s"
  have ok: "timers_ok s" using assms(1) by (rule reachable_timers_ok)
  have "paused_ok s" using assms(1) by (rule reachable_paused_ok)
  then have none: "autoAdvanceInterval s = None" "progressInterval s = None"
    using assms(2) by (simp_all add: paused_ok_def)
  have live: "liveAutoAdvance s = []" "liveProgress s = []"
    using ok none by (rule paused_no_timers)+
  have fill: "\<forall>h. progressFill (perform (Fire h) s) = progressFill s"
    using fire_no_progress [OF live] by simp
  have ok': "timers_ok ?s'" using ok by (rule perform_timers_ok)
  have none': "autoAdvanceInterval ?s' = None" "progressInterval ?s' = None"
    using goToSlide_paused_handles(2,3) [OF assms(2,3,4)] none by simp_all
  have live': "liveAutoAdvance ?s' = []" "liveProgress ?s' = []"
    using ok' none' by (rule paused_no_timers)+
  have np: "\<not> isPaused ?s'"
    using goToSlide_paused_handles(1) [OF assms(2,3,4)] by simp
  have closed: "\<forall>c \<in> set (cards ?s'). \<not> isExpanded c"
    using goToSlide_collapses [OF assms(3,4)] by simp
  have "timers (resumeAutoAdvance ?s') =
          timers ?s' @
            [\<lparr>tid = nextTimerId ?s', delay = 100, repeating = True,
               callback = Progress 0 (fl (100 / fl (autoAdvanceDelay ?s' / 100)))\<rparr>,
             \<lparr>tid = Suc (nextTimerId ?s'), delay = autoAdvanceDelay ?s', repeating = True,
               callback = AutoAdvance\<rparr>]"
    using np none' by (simp add: resumeAutoAdvance_def pause_timers del: perform.simps)
  then have again: "length (liveAutoAdvance (resumeAutoAdvance ?s')) = 1"
       "length (liveProgress (resumeAutoAdvance ?s')) = 1"
    using live' unfolding liveAutoAdvance_def liveProgress_def
    by (simp_all add: isProgress_def del: perform.simps)
  show ?thesis
    using live fill closed np none' live' again by blast
qed

text \<open>At the example page: the panel of slide 0 is opened, then \<^verbatim>\<open>goToSlide(1)\<close> is
  called. The claim as stated promises restarted timers; there are none.\<close>

theorem goToSlide_while_paused_counterexample:
  "isPaused (run [Toggle 0] (constructor examplePage)) \<and>
   isExpanded (cards (run [Toggle 0] (constructor examplePage)) ! 0) \<and>
   \<not> threw (goToSlide 1 (run [Toggle 0] (constructor examplePage))) \<and>
   autoAdvanceInterval (state_of (goToSlide 1 (run [Toggle 0] (constructor examplePage)))) = None \<and>
   progressInterval (state_of (goToSlide 1 (run [Toggle 0] (constructor examplePage)))) = None \<and>
   liveAutoAdvance (state_of (goToSlide 1 (run [Toggle 0] (constructor examplePage)))) = [] \<and>
   liveProgress (state_of (goToSlide 1 (run [Toggle 0] (constructor examplePage)))) = []"
  by (simp add: carousel_defs example_defs liveAutoAdvance_def liveProgress_def isProgress_def)

theorem goToSlide_while_paused_witness:
  "reachable examplePage (run [Toggle 0] (constructor examplePage)) \<and>
   isPaused (run [Toggle 0] (constructor examplePage)) \<and>
   currentIndex (run [Toggle 0] (constructor examplePage)) < length (cards (run [Toggle 0] (constructor examplePage))) \<and>
   1 < length (cards (run [Toggle 0] (constructor examplePage))) \<and>
   map isExpanded (cards (run [Toggle 0] (constructor examplePage))) = [True, False, False] \<and>
   map isExpanded (cards (perform (GoToSlide 1) (run [Toggle 0] (constructor examplePage)))) = [False, False, False] \<and>
   \<not> isPaused (perform (GoToSlide 1) (run [Toggle 0] (constructor examplePage))) \<and>
   liveAutoAdvance (perform (GoToSlide 1) (run [Toggle 0] (constructor examplePage))) = [] \<and>
   liveProgress (perform (GoToSlide 1) (run [Toggle 0] (constructor examplePage))) = [] \<and>
   length (liveAutoAdvance (resumeAutoAdvance (perform (GoToSlide 1) (run [Toggle 0] (constructor examplePage))))) = 1"
proof -
  let ?s = "run [Toggle 0] (constructor examplePage)"
  have r: "reachable examplePage ?s"
    by (rule reachable_run) (rule reachable.start)
  have p: "isPaused ?s" and c: "currentIndex ?s < length (cards ?s)" and i: "1 < length (cards ?s)"
    by (simp_all add: carousel_defs example_defs)
  have e: "map isExpanded (cards ?s) = [True, False, False]"
       "map isExpanded (cards (perform (GoToSlide 1) ?s)) = [False, False, False]"
    by (simp_all add: carousel_defs example_defs)
  show ?thesis
    using r p c i e goToSlide_while_paused [OF r p c i] by blast
qed

section \<open>The progress fill\<close>

lemma floor_rat_numeral:
  "\<lfloor>(numeral a :: rat) / numeral b\<rfloor> = numeral a div numeral b"
  using floor_divide_of_int_eq [of "numeral a" "numeral b", where ?'a = rat] by simp

lemmas fl_defs = fl_def fl_pos_def exponent_def pow2_def round_half_even_def tick_def Let_def

text \<open>The increment: the double nearest to 100 / 90, printed \<^verbatim>\<open>1.1111111111111112\<close>.\<close>

lemma increment_value: "fl (100 / fl (9000 / 100)) = 2501999792983609 / 2251799813685248"
  by (simp add: fl_defs bitlen.simps floor_rat_numeral)

lemma ticks_numeral:
  "ticks (numeral n) p inc = ticks (pred_numeral n) (tick p inc) inc"
  by (simp add: numeral_eq_Suc)

lemma trace_numeral:
  "trace (numeral n) p inc = tick p inc # trace (pred_numeral n) (tick p inc) inc"
  by (simp add: numeral_eq_Suc)

lemma ticks_90: "ticks 90 0 (2501999792983609 / 2251799813685248) = 100"
  by (simp add: fl_defs bitlen.simps floor_rat_numeral ticks_numeral)

lemma trace_89: "list_all (\<lambda>p. p < 100) (trace 89 0 (2501999792983609 / 2251799813685248))"
  by (simp add: fl_defs bitlen.simps floor_rat_numeral trace_numeral)

lemma ticks_Suc_end: "ticks (Suc n) p inc = tick (ticks n p inc) inc"
  by (induction n arbitrary: p) simp_all

lemma trace_nth: "k < n \<Longrightarrow> trace n p inc ! k = ticks (Suc k) p inc"
proof (induction n arbitrary: p k)
  case 0
  then show ?case by simp
next
  case (Suc n)
  then show ?case by (cases k) simp_all
qed

lemma length_trace [simp]: "length (trace n p inc) = n"
  by (induction n arbitrary: p) simp_all

lemma tick_le: "tick p inc \<le> 100"
  by (simp add: tick_def Let_def)

lemma ticks_below_100:
  assumes "0 < n" and "n < 90"
  shows "ticks n 0 (2501999792983609 / 2251799813685248) < 100"
proof -
  obtain k where k: "n = Suc k" using assms(1) by (cases n) auto
  then have "k < 89" using assms(2) by simp
  then have "trace 89 0 (2501999792983609 / 2251799813685248) ! k < 100"
    using trace_89 by (simp add: list_all_length)
  then show ?thesis using \<open>k < 89\<close> k by (simp add: trace_nth)
qed

lemma find_map_same:
  assumes "\<And>u. P (f u) = P u"
  shows "find P (map f xs) = map_option f (find P xs)"
  by (induction xs) (simp_all add: assms)

lemma fire_progress:
  assumes "find (\<lambda>t. tid t = h) (timers s) = Some t"
    and "callback t = Progress p inc"
    and "progressFill s = Some w"
  shows "progressFill (state_of (fire h s)) = Some (tick p inc)"
    and "find (\<lambda>t. tid t = h) (timers (state_of (fire h s))) = Some (t\<lparr>callback := Progress (tick p inc) inc\<rparr>)"
proof -
  let ?f = "\<lambda>u. if tid u = h then u\<lparr>callback := Progress (tick p inc) inc\<rparr> else u"
  have same: "(tid (?f u) = h) = (tid u = h)" for u by simp
  have st: "state_of (fire h s) = s\<lparr>timers := map ?f (timers s), progressFill := Some (tick p inc)\<rparr>"
    using assms by (simp add: fire_def Let_def)
  show "progressFill (state_of (fire h s)) = Some (tick p inc)"
    unfolding st by simp
  have "find (\<lambda>t. tid t = h) (map ?f (timers s)) = map_option ?f (find (\<lambda>t. tid t = h) (timers s))"
    using same by (rule find_map_same)
  then show "find (\<lambda>t. tid t = h) (timers (state_of (fire h s))) = Some (t\<lparr>callback := Progress (tick p inc) inc\<rparr>)"
    unfolding st using assms(1) find_timer(2) [OF assms(1)] by simp
qed

lemma run_fire_progress:
  assumes "find (\<lambda>t. tid t = h) (timers s) = Some t"
    and "callback t = Progress p inc"
    and "progressFill s = Some w"
  shows "progressFill (run (replicate (Suc n) (Fire h)) s) = Some (ticks (Suc n) p inc)"
  using assms
proof (induction n arbitrary: s t p w)
  case 0
  then show ?case using fire_progress(1) by simp
next
  case (Suc n)
  let ?s' = "state_of (fire h s)"
  have "progressFill (run (replicate (Suc n) (Fire h)) ?s') = Some (ticks (Suc n) (tick p inc) inc)"
  proof (rule Suc.IH)
    show "find (\<lambda>t. tid t = h) (timers ?s') = Some (t\<lparr>callback := Progress (tick p inc) inc\<rparr>)"
      using Suc.prems by (rule fire_progress(2))
    show "callback (t\<lparr>callback := Progress (tick p inc) inc\<rparr>) = Progress (tick p inc) inc"
      by simp
    show "progressFill ?s' = Some (tick p inc)"
      using Suc.prems by (rule fire_progress(1))
  qed
  then show ?case by simp
qed

lemma constructor_state:
  assumes "docCards doc \<noteq> []"
  shows "timers (constructor doc) =
           [\<lparr>tid = 1, delay = 100, repeating = True,
              callback = Progress 0 (fl (100 / fl (9000 / 100)))\<rparr>,
            \<lparr>tid = 2, delay = 9000, repeating = True, callback = AutoAdvance\<rparr>]"
    and "progressInterval (constructor doc) = Some 1"
    and "autoAdvanceInterval (constructor doc) = Some 2"
    and "autoAdvanceDelay (constructor doc) = 9000"
    and "progressFill (constructor doc) = map_option (\<lambda>w. 0) (docProgressFill doc)"
    and "cards (constructor doc) = docCards doc"
    and "currentIndex (constructor doc) = 0"
    and "\<not> isPaused (constructor doc)"
  using assms by (simp_all add: constructor_def init_def Let_def)

lemma goToSlide_progressFill:
  assumes "currentIndex s < length (cards s)" and "i < length (cards s)"
  shows "progressFill (state_of (goToSlide i s)) = map_option (\<lambda>w. 0) (progressFill s)"
  using assms
  by (cases "progressFill s")
     (simp_all add: goToSlide_def Let_def setTimeout_def resumeAutoAdvance_def)

lemma perform_delay: "autoAdvanceDelay (perform op s) = autoAdvanceDelay s"
proof (cases op)
  case (Fire h)
  show ?thesis
    unfolding Fire
    by (simp add: fire_def goToNext_def goToSlide_def Let_def setTimeout_def
          split: option.splits callback.splits)
qed (simp_all add: goToSlide_def goToNext_def goToPrevious_def toggle_def mouseenter_def
       mouseleave_def Let_def setTimeout_def split: option.splits)

lemma reachable_delay: "reachable doc s \<Longrightarrow> autoAdvanceDelay s = 9000"
proof (induction rule: reachable.induct)
  case start
  show ?case by (simp add: constructor_def init_def Let_def)
next
  case (step s op)
  then show ?case by (simp only: perform_delay)
qed

lemma resumeAutoAdvance_fill:
  "progressFill (resumeAutoAdvance s) =
     (if isPaused s then progressFill s else map_option (\<lambda>w. 0) (progressFill s))"
  by (simp add: resumeAutoAdvance_def)

lemma perform_fill: "progressFill s \<noteq> None \<Longrightarrow> progressFill (perform op s) \<noteq> None"
proof (cases op)
  case (Fire h)
  assume "progressFill s \<noteq> None"
  then show ?thesis
    unfolding Fire
    by (auto simp: fire_def goToNext_def goToSlide_def Let_def setTimeout_def resumeAutoAdvance_fill
          split: option.splits callback.splits)
qed (auto simp: goToSlide_def goToNext_def goToPrevious_def toggle_def mouseenter_def
       mouseleave_def Let_def setTimeout_def resumeAutoAdvance_fill split: option.splits)

lemma reachable_fill:
  "reachable doc s \<Longrightarrow> docProgressFill doc \<noteq> None \<Longrightarrow> progressFill s \<noteq> None"
proof (induction rule: reachable.induct)
  case start
  then show ?case by (auto simp: constructor_def init_def Let_def)
next
  case (step s op)
  then show ?case by (simp only: perform_fill not_False_eq_True)
qed

lemma find_append_later:
  assumes "\<forall>x \<in> set xs. \<not> P x"
  shows "find P (xs @ ys) = find P ys"
  using assms by (induction xs) simp_all

lemma startAutoAdvance_fresh:
  assumes "timers_ok s"
  shows "find (\<lambda>t. tid t = nextTimerId s) (timers (startAutoAdvance s)) =
           Some \<lparr>tid = nextTimerId s, delay = 100, repeating = True,
                 callback = Progress 0 (fl (100 / fl (autoAdvanceDelay s / 100)))\<rparr>"
    and "find (\<lambda>t. tid t = Suc (nextTimerId s)) (timers (startAutoAdvance s)) =
           Some \<lparr>tid = Suc (nextTimerId s), delay = autoAdvanceDelay s, repeating = True,
                 callback = AutoAdvance\<rparr>"
proof -
  have ok: "timers_ok (resetProgress s)" using assms by (rule resetProgress_ok)
  then have old: "\<forall>t \<in> set (timers (resetProgress s)). tid t < nextTimerId s"
    unfolding timers_ok_def by simp
  have a: "\<forall>t \<in> set (timers (resetProgress s)). \<not> tid t = nextTimerId s"
    using old by fastforce
  have b: "\<forall>t \<in> set (timers (resetProgress s)). \<not> tid t = Suc (nextTimerId s)"
    using old by fastforce
  show "find (\<lambda>t. tid t = nextTimerId s) (timers (startAutoAdvance s)) =
           Some \<lparr>tid = nextTimerId s, delay = 100, repeating = True,
                 callback = Progress 0 (fl (100 / fl (autoAdvanceDelay s / 100)))\<rparr>"
    unfolding startAutoAdvance_fields(10) find_append_later [OF a] by simp
  show "find (\<lambda>t. tid t = Suc (nextTimerId s)) (timers (startAutoAdvance s)) =
           Some \<lparr>tid = Suc (nextTimerId s), delay = autoAdvanceDelay s, repeating = True,
                 callback = AutoAdvance\<rparr>"
    unfolding startAutoAdvance_fields(10) find_append_later [OF b] by simp
qed

lemma goToSlide_restarts:
  assumes ok: "timers_ok s" and np: "\<not> isPaused s"
    and ci: "currentIndex s < length (cards s)" and i: "i < length (cards s)"
  shows "\<exists>x. timers_ok x \<and> nextTimerId x = Suc (nextTimerId s) \<and>
             autoAdvanceDelay x = autoAdvanceDelay s \<and>
             progressFill x = map_option (\<lambda>w. 0) (progressFill s) \<and>
             state_of (goToSlide i s) = (startAutoAdvance x)\<lparr>isPaused := False\<rparr>"
proof -
  let ?t = "\<lparr>tid = nextTimerId s, delay = 600, repeating = False, callback = ClearPrev\<rparr>"
  have app: "timers_ok m"
    if "timers m = timers s @ [?t]" "nextTimerId m = Suc (nextTimerId s)"
       "autoAdvanceInterval m = autoAdvanceInterval s" "progressInterval m = progressInterval s"
    for m
    using ok that(1) by (rule timers_ok_append) (simp_all add: that isProgress_def)
  have "\<exists>m. timers m = timers s @ [?t] \<and> nextTimerId m = Suc (nextTimerId s) \<and>
            autoAdvanceInterval m = autoAdvanceInterval s \<and> progressInterval m = progressInterval s \<and>
            autoAdvanceDelay m = autoAdvanceDelay s \<and> progressFill m = progressFill s \<and>
            isPaused m = isPaused s \<and>
            state_of (goToSlide i s) = resumeAutoAdvance (resetProgress m)"
    using ci i unfolding goToSlide_def Let_def setTimeout_def
    by (simp del: resetProgress_fields)
       (intro conjI impI; (rule exI, (rule conjI [rotated])+, rule refl, simp_all))
  then obtain m where m: "timers m = timers s @ [?t]" "nextTimerId m = Suc (nextTimerId s)"
      "autoAdvanceInterval m = autoAdvanceInterval s" "progressInterval m = progressInterval s"
      "autoAdvanceDelay m = autoAdvanceDelay s" "progressFill m = progressFill s"
      "isPaused m = isPaused s"
      "state_of (goToSlide i s) = resumeAutoAdvance (resetProgress m)"
    by blast
  let ?x = "pauseAutoAdvance (resetProgress m)"
  have "timers_ok m" using m(1,2,3,4) by (rule app)
  then have "timers_ok (resetProgress m)" by (rule resetProgress_ok)
  then have okx: "timers_ok ?x" by (rule pauseAutoAdvance_ok(1))
  have "state_of (goToSlide i s) = (startAutoAdvance ?x)\<lparr>isPaused := False\<rparr>"
    unfolding m(8) using np m(7) by (simp add: resumeAutoAdvance_def)
  moreover have "nextTimerId ?x = Suc (nextTimerId s)" using m(2) by simp
  moreover have "autoAdvanceDelay ?x = autoAdvanceDelay s" using m(5) by simp
  moreover have "progressFill ?x = map_option (\<lambda>w. 0) (progressFill s)" using m(6) by simp
  ultimately show ?thesis using okx by blast
qed

lemma cycle_fill:
  assumes f: "find (\<lambda>t. tid t = h) (timers s) = Some t"
    and cb: "callback t = Progress 0 (fl (100 / fl (9000 / 100)))"
    and fill0: "progressFill s = Some 0"
  shows "\<forall>n. progressFill (run (replicate (Suc n) (Fire h)) s)
               = Some (tick (ticks n 0 (fl (100 / fl (9000 / 100)))) (fl (100 / fl (9000 / 100))))"
    and "\<forall>n. \<exists>p. progressFill (run (replicate n (Fire h)) s) = Some p \<and> p \<le> 100"
    and "\<forall>n. n < 90 \<longrightarrow> (\<exists>p. progressFill (run (replicate n (Fire h)) s) = Some p \<and> p < 100)"
    and "progressFill (run (replicate 90 (Fire h)) s) = Some 100"
proof -
  let ?inc = "fl (100 / fl (9000 / 100))"
  have after: "progressFill (run (replicate (Suc n) (Fire h)) s) = Some (ticks (Suc n) 0 ?inc)" for n
    using f cb fill0 by (rule run_fire_progress)
  show step: "\<forall>n. progressFill (run (replicate (Suc n) (Fire h)) s) = Some (tick (ticks n 0 ?inc) ?inc)"
    using after by (simp only: ticks_Suc_end) simp
  show "\<forall>n. \<exists>p. progressFill (run (replicate n (Fire h)) s) = Some p \<and> p \<le> 100"
  proof
    fix n
    show "\<exists>p. progressFill (run (replicate n (Fire h)) s) = Some p \<and> p \<le> 100"
    proof (cases n)
      case 0
      then show ?thesis using fill0 by simp
    next
      case (Suc m)
      have "progressFill (run (replicate (Suc m) (Fire h)) s) = Some (tick (ticks m 0 ?inc) ?inc)"
        using step by blast
      then show ?thesis unfolding Suc using tick_le by blast
    qed
  qed
  show "\<forall>n. n < 90 \<longrightarrow> (\<exists>p. progressFill (run (replicate n (Fire h)) s) = Some p \<and> p < 100)"
  proof (intro allI impI)
    fix n :: nat
    assume less: "n < 90"
    show "\<exists>p. progressFill (run (replicate n (Fire h)) s) = Some p \<and> p < 100"
    proof (cases n)
      case 0
      then show ?thesis using fill0 by simp
    next
      case (Suc m)
      have "ticks n 0 ?inc < 100"
        unfolding increment_value using less Suc by (intro ticks_below_100) simp_all
      then show ?thesis using after [of m] Suc by simp
    qed
  qed
  have "replicate 90 (Fire h) = replicate (Suc 89) (Fire h)" by simp
  then show "progressFill (run (replicate 90 (Fire h)) s) = Some 100"
    using after [of 89] ticks_90 by (simp only: increment_value) simp
qed

lemma goToSlide_starts_cycle:
  assumes r: "reachable doc s" and bar: "docProgressFill doc \<noteq> None"
    and np: "\<not> isPaused s"
    and ci: "currentIndex s < length (cards s)" and i: "i < length (cards s)"
  shows "progressInterval (state_of (goToSlide i s)) = Some (Suc (nextTimerId s))"
    and "autoAdvanceInterval (state_of (goToSlide i s)) = Some (Suc (Suc (nextTimerId s)))"
    and "find (\<lambda>t. tid t = Suc (nextTimerId s)) (timers (state_of (goToSlide i s))) =
           Some \<lparr>tid = Suc (nextTimerId s), delay = 100, repeating = True,
                 callback = Progress 0 (fl (100 / fl (9000 / 100)))\<rparr>"
    and "find (\<lambda>t. tid t = Suc (Suc (nextTimerId s))) (timers (state_of (goToSlide i s))) =
           Some \<lparr>tid = Suc (Suc (nextTimerId s)), delay = 9000, repeating = True,
                 callback = AutoAdvance\<rparr>"
    and "progressFill (state_of (goToSlide i s)) = Some 0"
proof -
  have ok: "timers_ok s" using r by (rule reachable_timers_ok)
  have d: "autoAdvanceDelay s = 9000" using r by (rule reachable_delay)
  have "progressFill s \<noteq> None" using r bar by (rule reachable_fill)
  then have z: "map_option (\<lambda>w. 0) (progressFill s) = Some (0::rat)" by auto
  obtain x where x: "timers_ok x" "nextTimerId x = Suc (nextTimerId s)"
      "autoAdvanceDelay x = autoAdvanceDelay s"
      "progressFill x = map_option (\<lambda>w. 0) (progressFill s)"
      "state_of (goToSlide i s) = (startAutoAdvance x)\<lparr>isPaused := False\<rparr>"
    using goToSlide_restarts [OF ok np ci i] by blast
  note fresh = startAutoAdvance_fresh [OF x(1), unfolded x(2) x(3) d]
  show "progressInterval (state_of (goToSlide i s)) = Some (Suc (nextTimerId s))"
    unfolding x(5) using x(2) by simp
  show "autoAdvanceInterval (state_of (goToSlide i s)) = Some (Suc (Suc (nextTimerId s)))"
    unfolding x(5) using x(2) by simp
  show "find (\<lambda>t. tid t = Suc (nextTimerId s)) (timers (state_of (goToSlide i s))) =
           Some \<lparr>tid = Suc (nextTimerId s), delay = 100, repeating = True,
                 callback = Progress 0 (fl (100 / fl (9000 / 100)))\<rparr>"
    unfolding x(5) using fresh(1) by (simp del: startAutoAdvance_fields)
  show "find (\<lambda>t. tid t = Suc (Suc (nextTimerId s))) (timers (state_of (goToSlide i s))) =
           Some \<lparr>tid = Suc (Suc (nextTimerId s)), delay = 9000, repeating = True,
                 callback = AutoAdvance\<rparr>"
    unfolding x(5) using fresh(2) by (simp del: startAutoAdvance_fields)
  show "progressFill (state_of (goToSlide i s)) = Some 0"
    unfolding x(5) using x(4) z by simp
qed

lemma resume_starts_cycle:
  assumes r: "reachable doc s" and bar: "docProgressFill doc \<noteq> None" and np: "\<not> isPaused s"
  shows "cycle_started (resumeAutoAdvance s) (nextTimerId s)"
proof -
  let ?x = "pauseAutoAdvance s"
  have ok: "timers_ok ?x" using reachable_timers_ok [OF r] by (rule pauseAutoAdvance_ok(1))
  have d: "autoAdvanceDelay ?x = 9000" using reachable_delay [OF r] by simp
  have n: "nextTimerId ?x = nextTimerId s" by simp
  have "progressFill s \<noteq> None" using r bar by (rule reachable_fill)
  then have z: "map_option (\<lambda>w. 0) (progressFill ?x) = Some (0::rat)" by auto
  have eq: "resumeAutoAdvance s = (startAutoAdvance ?x)\<lparr>isPaused := False\<rparr>"
    using np by (simp add: resumeAutoAdvance_def)
  note fresh = startAutoAdvance_fresh [OF ok, unfolded n d]
  show ?thesis
    unfolding cycle_started_def eq
    using fresh z by (simp del: startAutoAdvance_fields(10) pauseAutoAdvance_fields(4))
qed

lemma goToSlide_cycle_started:
  assumes "reachable doc s" and "docProgressFill doc \<noteq> None" and "\<not> isPaused s"
    and "currentIndex s < length (cards s)" and "i < length (cards s)"
  shows "cycle_started (state_of (goToSlide i s)) (Suc (nextTimerId s))"
  unfolding cycle_started_def
  using goToSlide_starts_cycle [OF assms] by simp

lemma constructor_cycle_started:
  assumes "docCards doc \<noteq> []" and "docProgressFill doc = Some w"
  shows "cycle_started (constructor doc) 1"
  unfolding cycle_started_def
  using constructor_state [OF assms(1)] assms(2) by simp

lemma cycle_started_fill:
  assumes "cycle_started s h"
  shows "\<forall>n. progressFill (run (replicate (Suc n) (Fire h)) s)
               = Some (tick (ticks n 0 (fl (100 / fl (9000 / 100)))) (fl (100 / fl (9000 / 100))))"
    and "\<forall>n. \<exists>p. progressFill (run (replicate n (Fire h)) s) = Some p \<and> p \<le> 100"
    and "\<forall>n. n < 90 \<longrightarrow> (\<exists>p. progressFill (run (replicate n (Fire h)) s) = Some p \<and> p < 100)"
    and "progressFill (run (replicate 90 (Fire h)) s) = Some 100"
proof -
  let ?t = "\<lparr>tid = h, delay = 100, repeating = True,
             callback = Progress 0 (fl (100 / fl (9000 / 100)))\<rparr>"
  have f: "find (\<lambda>t. tid t = h) (timers s) = Some ?t"
    and z: "progressFill s = Some 0"
    using assms unfolding cycle_started_def by blast+
  have cb: "callback ?t = Progress 0 (fl (100 / fl (9000 / 100)))" by simp
  note c = cycle_fill [OF f cb z]
  show "\<forall>n. progressFill (run (replicate (Suc n) (Fire h)) s)
               = Some (tick (ticks n 0 (fl (100 / fl (9000 / 100)))) (fl (100 / fl (9000 / 100))))"
    by (rule c(1))
  show "\<forall>n. \<exists>p. progressFill (run (replicate n (Fire h)) s) = Some p \<and> p \<le> 100"
    by (rule c(2))
  show "\<forall>n. n < 90 \<longrightarrow> (\<exists>p. progressFill (run (replicate n (Fire h)) s) = Some p \<and> p < 100)"
    by (rule c(3))
  show "progressFill (run (replicate 90 (Fire h)) s) = Some 100"
    by (rule c(4))
qed

lemma fire_auto_advance:
  assumes "find (\<lambda>t. tid t = h) (timers s) = Some t" and "callback t = AutoAdvance"
  shows "perform (Fire h) s = perform GoToNext s"
  using assms by (simp add: fire_def)

text \<open>
  Claim C7, as the code has it. A cycle is started by the constructor, by every
  \<^verbatim>\<open>goToSlide\<close> to a slide while \<^verbatim>\<open>isPaused\<close> is not set (the auto-advance callback is
  \<^verbatim>\<open>goToNext\<close>, which is such a call), and by every other \<^verbatim>\<open>resumeAutoAdvance\<close> while
  \<^verbatim>\<open>isPaused\<close> is not set: the fill is set to 0, and a progress timer with a delay of 100
  ms, the closure variable \<^verbatim>\<open>progress\<close> at 0 and the increment \<open>100 / (9000 / 100)\<close> in
  double arithmetic is started together with an auto-advance timer with a delay of 9000
  ms. Each run of the progress callback adds the increment and clamps at 100. Within
  every cycle the fill is at most 100 after any number of runs, below 100 after fewer
  than 90 runs, and exactly 100 after 90 runs. Every change of slide sets the fill to 0.
  Whether the 90th run comes before the auto-advance callback is not stated: both are
  due 9000 ms after the start of the cycle.
\<close>

theorem progress_reaches_100_after_90_ticks_of_a_cycle:
  assumes "docCards doc \<noteq> []" and "docProgressFill doc = Some w"
  shows "cycle_started (constructor doc) 1 \<and>
         (\<forall>s i. reachable doc s \<and> \<not> isPaused s \<and>
                currentIndex s < length (cards s) \<and> i < length (cards s) \<longrightarrow>
            cycle_started (perform (GoToSlide i) s) (Suc (nextTimerId s))) \<and>
         (\<forall>s. perform GoToNext s
               = perform (GoToSlide ((currentIndex s + 1) mod length (cards s))) s) \<and>
         (\<forall>s h t. find (\<lambda>t. tid t = h) (timers s) = Some t \<and> callback t = AutoAdvance \<longrightarrow>
            perform (Fire h) s = perform GoToNext s) \<and>
         (\<forall>s. reachable doc s \<and> \<not> isPaused s \<longrightarrow>
            cycle_started (perform ResumeAutoAdvance s) (nextTimerId s)) \<and>
         (\<forall>p inc. tick p inc = (if 100 \<le> fl (p + inc) then 100 else fl (p + inc))) \<and>
         (\<forall>s h. cycle_started s h \<longrightarrow>
            (\<forall>n. progressFill (run (replicate (Suc n) (Fire h)) s)
                  = Some (tick (ticks n 0 (fl (100 / fl (9000 / 100)))) (fl (100 / fl (9000 / 100))))) \<and>
            (\<forall>n. \<exists>p. progressFill (run (replicate n (Fire h)) s) = Some p \<and> p \<le> 100) \<and>
            (\<forall>n. n < 90 \<longrightarrow>
               (\<exists>p. progressFill (run (replicate n (Fire h)) s) = Some p \<and> p < 100)) \<and>
            progressFill (run (replicate 90 (Fire h)) s) = Some 100) \<and>
         (\<forall>s i. currentIndex s < length (cards s) \<and> i < length (cards s) \<and> progressFill s \<noteq> None
            \<longrightarrow> progressFill (perform (GoToSlide i) s) = Some 0)"
proof (intro conjI allI impI)
  have bar: "docProgressFill doc \<noteq> None" using assms(2) by simp
  show "cycle_started (constructor doc) 1"
    using assms by (rule constructor_cycle_started)
  show "cycle_started (perform (GoToSlide i) s) (Suc (nextTimerId s))"
    if "reachable doc s \<and> \<not> isPaused s \<and>
        currentIndex s < length (cards s) \<and> i < length (cards s)" for s i
    using that bar goToSlide_cycle_started [of doc s i] by simp
  show "perform GoToNext s = perform (GoToSlide ((currentIndex s + 1) mod length (cards s))) s" for s
    by (simp add: goToNext_def)
  show "perform (Fire h) s = perform GoToNext s"
    if "find (\<lambda>t. tid t = h) (timers s) = Some t \<and> callback t = AutoAdvance" for s h t
    using that fire_auto_advance by blast
  show "cycle_started (perform ResumeAutoAdvance s) (nextTimerId s)"
    if "reachable doc s \<and> \<not> isPaused s" for s
    using that bar resume_starts_cycle [of doc s] by simp
  show "tick p inc = (if 100 \<le> fl (p + inc) then 100 else fl (p + inc))" for p inc
    by (simp add: tick_def Let_def)
  show "progressFill (run (replicate (Suc n) (Fire h)) s)
          = Some (tick (ticks n 0 (fl (100 / fl (9000 / 100)))) (fl (100 / fl (9000 / 100))))"
    if "cycle_started s h" for s h n
    using cycle_started_fill(1) [OF that] by (rule spec)
  show "\<exists>p. progressFill (run (replicate n (Fire h)) s) = Some p \<and> p \<le> 100"
    if "cycle_started s h" for s h n
    using cycle_started_fill(2) [OF that] by (rule spec)
  show "\<exists>p. progressFill (run (replicate n (Fire h)) s) = Some p \<and> p < 100"
    if "cycle_started s h" and "n < 90" for s h n
    using cycle_started_fill(3) [OF that(1)] that(2) by blast
  show "progressFill (run (replicate 90 (Fire h)) s) = Some 100"
    if "cycle_started s h" for s h
    using that by (rule cycle_started_fill(4))
  show "progressFill (perform (GoToSlide i) s) = Some 0"
    if "currentIndex s < length (cards s) \<and> i < length (cards s) \<and> progressFill s \<noteq> None" for s i
    using that by (auto simp: goToSlide_progressFill)
qed

text \<open>At the example page: in the first cycle, in the cycle that \<^verbatim>\<open>goToSlide(1)\<close> starts
  (progress timer 4) and in the cycle that \<^verbatim>\<open>resumeAutoAdvance\<close> starts (progress timer
  3), 89 runs of the progress callback leave the fill below 100 and the 90th makes it
  100; \<^verbatim>\<open>goToSlide(1)\<close> after the first run sets the fill to 0.\<close>

theorem progress_reaches_100_after_90_ticks_of_a_cycle_witness:
  "docCards examplePage \<noteq> [] \<and> docProgressFill examplePage = Some 0 \<and>
   progressFill (run (replicate 89 (Fire 1)) (constructor examplePage)) \<noteq> Some 100 \<and>
   progressFill (run (replicate 90 (Fire 1)) (constructor examplePage)) = Some 100 \<and>
   reachable examplePage (constructor examplePage) \<and>
   \<not> isPaused (constructor examplePage) \<and>
   currentIndex (constructor examplePage) < length (cards (constructor examplePage)) \<and>
   1 < length (cards (constructor examplePage)) \<and>
   nextTimerId (constructor examplePage) = 3 \<and>
   progressInterval (perform (GoToSlide 1) (constructor examplePage)) = Some 4 \<and>
   progressFill (perform (GoToSlide 1) (constructor examplePage)) = Some 0 \<and>
   progressFill (run (replicate 89 (Fire 4)) (perform (GoToSlide 1) (constructor examplePage)))
     \<noteq> Some 100 \<and>
   progressFill (run (replicate 90 (Fire 4)) (perform (GoToSlide 1) (constructor examplePage)))
     = Some 100 \<and>
   progressInterval (perform ResumeAutoAdvance (constructor examplePage)) = Some 3 \<and>
   progressFill (run (replicate 90 (Fire 3)) (perform ResumeAutoAdvance (constructor examplePage)))
     = Some 100 \<and>
   progressFill (run [Fire 1] (constructor examplePage)) = Some (2501999792983609 / 2251799813685248) \<and>
   currentIndex (run [Fire 1] (constructor examplePage)) < length (cards (run [Fire 1] (constructor examplePage))) \<and>
   progressFill (perform (GoToSlide 1) (run [Fire 1] (constructor examplePage))) = Some 0"
proof -
  let ?c = "constructor examplePage"
  let ?s = "run [Fire 1] ?c"
  let ?g = "perform (GoToSlide 1) ?c"
  let ?r = "perform ResumeAutoAdvance ?c"
  have h: "docCards examplePage \<noteq> []" "docProgressFill examplePage = Some 0"
    by (simp_all add: examplePage_def)
  note inst = progress_reaches_100_after_90_ticks_of_a_cycle [OF h]
  note first = inst [THEN conjunct1]
  note slide = inst [THEN conjunct2, THEN conjunct1]
  note rest4 = inst [THEN conjunct2, THEN conjunct2, THEN conjunct2, THEN conjunct2]
  note resume = rest4 [THEN conjunct1]
  note cycle = rest4 [THEN conjunct2, THEN conjunct2, THEN conjunct1]
  note reset = rest4 [THEN conjunct2, THEN conjunct2, THEN conjunct2]
  have r: "reachable examplePage ?c" by (rule reachable.start)
  have c: "\<not> isPaused ?c" "currentIndex ?c < length (cards ?c)" "1 < length (cards ?c)"
    "nextTimerId ?c = 3"
    by (simp_all add: constructor_def init_def Let_def examplePage_def)
  have cg: "cycle_started ?g 4"
    using slide [THEN spec, THEN spec, of ?c 1] r c by simp
  have cr: "cycle_started ?r 3"
    using resume [THEN spec, of ?c] r c by simp
  note f1 = cycle [THEN spec, THEN spec, of ?c 1, THEN mp, OF first]
  note f4 = cycle [THEN spec, THEN spec, of ?g 4, THEN mp, OF cg]
  note f3 = cycle [THEN spec, THEN spec, of ?r 3, THEN mp, OF cr]
  have "progressFill (run (replicate (Suc 0) (Fire 1)) ?c)
          = Some (tick (ticks 0 0 (fl (100 / fl (9000 / 100)))) (fl (100 / fl (9000 / 100))))"
    using f1 [THEN conjunct1] by (rule spec)
  then have one: "progressFill ?s = Some (2501999792983609 / 2251799813685248)"
    by (simp add: increment_value fl_defs bitlen.simps floor_rat_numeral)
  have idx: "currentIndex ?s < length (cards ?s)" "1 < length (cards ?s)"
    by (simp_all add: constructor_state h fire_def Let_def examplePage_def)
  have "\<exists>p. progressFill (run (replicate 89 (Fire 1)) ?c) = Some p \<and> p < 100"
    using f1 [THEN conjunct2, THEN conjunct2, THEN conjunct1, THEN spec, of 89] by simp
  then have b1: "progressFill (run (replicate 89 (Fire 1)) ?c) \<noteq> Some 100"
    by auto
  have full1: "progressFill (run (replicate 90 (Fire 1)) ?c) = Some 100"
    using f1 by blast
  have "\<exists>p. progressFill (run (replicate 89 (Fire 4)) ?g) = Some p \<and> p < 100"
    using f4 [THEN conjunct2, THEN conjunct2, THEN conjunct1, THEN spec, of 89] by simp
  then have b4: "progressFill (run (replicate 89 (Fire 4)) ?g) \<noteq> Some 100"
    by auto
  have full4: "progressFill (run (replicate 90 (Fire 4)) ?g) = Some 100"
    using f4 by blast
  have full3: "progressFill (run (replicate 90 (Fire 3)) ?r) = Some 100"
    using f3 by blast
  have g: "progressInterval ?g = Some 4" "progressFill ?g = Some 0"
    using cg unfolding cycle_started_def by blast+
  have p3: "progressInterval ?r = Some 3"
    using cr unfolding cycle_started_def by blast
  have "progressFill ?s \<noteq> None" using one by simp
  then have zero: "progressFill (perform (GoToSlide 1) ?s) = Some 0"
    using reset [THEN spec, THEN spec, of ?s 1] idx by blast
  show ?thesis
    using h b1 full1 r c g b4 full4 p3 full3 one idx(1) zero by (intro conjI)
qed


section \<open>The last tick and the auto-advance\<close>

lemma timed_append:
  "timed (xs @ ys) cs = (case timed xs cs of None \<Rightarrow> None | Some cs' \<Rightarrow> timed ys cs')"
  by (induction xs arbitrary: cs) (simp_all split: option.splits)

lemma increment_value_90: "fl (100 / fl 90) = 2501999792983609 / 2251799813685248"
  using increment_value by simp

lemma loaded_example:
  "loaded examplePage =
     (\<lparr>now = 0, armed = [(1, 0), (2, 0)]\<rparr>,
      \<lparr>currentIndex = 0, cards = [activeCard, idleCard, idleCard],
       indicators = [plainIndicator\<lparr>ind_active := True\<rparr>, plainIndicator, plainIndicator],
       progressFill = Some 0, autoAdvanceInterval = Some 2, progressInterval = Some 1,
       autoAdvanceDelay = 9000, isPaused = False,
       timers = [\<lparr>tid = 1, delay = 100, repeating = True,
                   callback = Progress 0 (2501999792983609 / 2251799813685248)\<rparr>,
                 \<lparr>tid = 2, delay = 9000, repeating = True, callback = AutoAdvance\<rparr>],
       nextTimerId = 3\<rparr>)"
  by (simp add: loaded_def carousel_defs examplePage_def increment_value_90)

lemma after_89_ticks:
  "timed (map (\<lambda>k. (100 * of_nat k, Fire 1)) [1..<90]) (loaded examplePage) =
     Some (\<lparr>now = 8900, armed = [(1, 8900), (2, 0)]\<rparr>,
      \<lparr>currentIndex = 0, cards = [activeCard, idleCard, idleCard],
       indicators = [plainIndicator\<lparr>ind_active := True\<rparr>, plainIndicator, plainIndicator],
       progressFill = Some (6958686924235675 / 70368744177664),
       autoAdvanceInterval = Some 2, progressInterval = Some 1,
       autoAdvanceDelay = 9000, isPaused = False,
       timers = [\<lparr>tid = 1, delay = 100, repeating = True,
                   callback = Progress (6958686924235675 / 70368744177664)
                                (2501999792983609 / 2251799813685248)\<rparr>,
                 \<lparr>tid = 2, delay = 9000, repeating = True, callback = AutoAdvance\<rparr>],
       nextTimerId = 3\<rparr>)"
  unfolding loaded_example
  by (simp add: happens_def due_def fire_def fl_defs bitlen.simps floor_rat_numeral upt_rec)

text \<open>
  Claim C7 as stated, at the example page. Every callback runs at the time at which its
  timer is due: the progress callback at 100, 200, ..., 8900 ms. The fill is then
  98.88..., below 100 as after every earlier run, and the progress timer and the
  auto-advance timer are both due at 9000 ms. The auto-advance callback runs at 9000 ms:
  it goes to slide 1, sets the fill to 0 and clears the progress timer, whose 90th run
  never happens (timer 1 is no longer live; the timers are now 3, 4 and 5). The fill has
  not been 100 before the auto-advance fired. The same holds when the browser runs the
  progress callback late, here once a second: eight runs before the auto-advance, the
  fill at 8.88....
\<close>

theorem progress_reaches_100_after_90_ticks_of_a_cycle_counterexample:
  "map_option (\<lambda>cs. (now (fst cs), progressFill (snd cs),
                      due (fst cs) (snd cs) 1, due (fst cs) (snd cs) 2))
     (timed (map (\<lambda>k. (100 * of_nat k, Fire 1)) [1..<90]) (loaded examplePage))
     = Some (8900, Some (6958686924235675 / 70368744177664), Some 9000, Some 9000) \<and>
   (6958686924235675 / 70368744177664 :: rat) < 100 \<and>
   list_all (\<lambda>p. p < 100) (trace 89 0 (fl (100 / fl (9000 / 100)))) \<and>
   map_option (\<lambda>cs. (now (fst cs), currentIndex (snd cs), progressFill (snd cs),
                      map tid (timers (snd cs))))
     (timed (map (\<lambda>k. (100 * of_nat k, Fire 1)) [1..<90] @ [(9000, Fire 2)]) (loaded examplePage))
     = Some (9000, 1, Some 0, [3, 4, 5]) \<and>
   timed (map (\<lambda>k. (100 * of_nat k, Fire 1)) [1..<90] @ [(9000, Fire 2), (9000, Fire 1)])
     (loaded examplePage) = None \<and>
   map_option (\<lambda>cs. (now (fst cs), progressFill (snd cs)))
     (timed (map (\<lambda>k. (1000 * of_nat k, Fire 1)) [1..<9]) (loaded examplePage))
     = Some (8000, Some (5003999585967217 / 562949953421312)) \<and>
   map_option (\<lambda>cs. (now (fst cs), currentIndex (snd cs), progressFill (snd cs)))
     (timed (map (\<lambda>k. (1000 * of_nat k, Fire 1)) [1..<9] @ [(9000, Fire 2)]) (loaded examplePage))
     = Some (9000, 1, Some 0)"
proof (intro conjI)
  show "list_all (\<lambda>p. p < 100) (trace 89 0 (fl (100 / fl (9000 / 100))))"
    using trace_89 by (simp only: increment_value)
  show "map_option (\<lambda>cs. (now (fst cs), progressFill (snd cs),
                      due (fst cs) (snd cs) 1, due (fst cs) (snd cs) 2))
     (timed (map (\<lambda>k. (100 * of_nat k, Fire 1)) [1..<90]) (loaded examplePage))
     = Some (8900, Some (6958686924235675 / 70368744177664), Some 9000, Some 9000)"
    unfolding after_89_ticks by (simp add: due_def)
  show "map_option (\<lambda>cs. (now (fst cs), currentIndex (snd cs), progressFill (snd cs),
                      map tid (timers (snd cs))))
     (timed (map (\<lambda>k. (100 * of_nat k, Fire 1)) [1..<90] @ [(9000, Fire 2)]) (loaded examplePage))
     = Some (9000, 1, Some 0, [3, 4, 5])"
    unfolding timed_append after_89_ticks
    by (simp add: happens_def due_def carousel_defs example_defs)
  show "timed (map (\<lambda>k. (100 * of_nat k, Fire 1)) [1..<90] @ [(9000, Fire 2), (9000, Fire 1)])
     (loaded examplePage) = None"
    unfolding timed_append after_89_ticks
    by (simp add: happens_def due_def carousel_defs example_defs)
  show "map_option (\<lambda>cs. (now (fst cs), progressFill (snd cs)))
     (timed (map (\<lambda>k. (1000 * of_nat k, Fire 1)) [1..<9]) (loaded examplePage))
     = Some (8000, Some (5003999585967217 / 562949953421312))"
    unfolding loaded_example
    by (simp add: happens_def due_def fire_def fl_defs bitlen.simps floor_rat_numeral upt_rec)
  show "map_option (\<lambda>cs. (now (fst cs), currentIndex (snd cs), progressFill (snd cs)))
     (timed (map (\<lambda>k. (1000 * of_nat k, Fire 1)) [1..<9] @ [(9000, Fire 2)]) (loaded examplePage))
     = Some (9000, 1, Some 0)"
    unfolding loaded_example
    by (simp add: happens_def due_def fire_def fl_defs bitlen.simps floor_rat_numeral upt_rec
          carousel_defs example_defs)
qed simp

section \<open>Construction\<close>

lemma backfill_eq:
  "backfill i n children = children @ map (\<lambda>k. Ind (newIndicator k)) [i..<n]"
proof (induction i n children rule: backfill.induct)
  case (1 i n children)
  show ?case
  proof (cases "i < n")
    case True
    then have "backfill i n children = backfill (Suc i) n (children @ [Ind (newIndicator i)])"
      by (simp add: backfill.simps [of i])
    also have "\<dots> = (children @ [Ind (newIndicator i)]) @ map (\<lambda>k. Ind (newIndicator k)) [Suc i..<n]"
      using True by (rule "1.IH")
    also have "\<dots> = children @ map (\<lambda>k. Ind (newIndicator k)) [i..<n]"
      using True by (simp add: upt_conv_Cons)
    finally show ?thesis .
  next
    case False
    then show ?thesis by (simp add: backfill.simps [of i])
  qed
qed

lemma indicatorsOf_append:
  "indicatorsOf (xs @ ys) = indicatorsOf xs @ indicatorsOf ys"
  by (induction xs rule: indicatorsOf.induct) simp_all

lemma indicatorsOf_new:
  "indicatorsOf (map (\<lambda>k. Ind (newIndicator k)) ks) = map newIndicator ks"
  by (induction ks) simp_all

lemma indicatorsOf_Ind: "indicatorsOf (map Ind pre) = pre"
  by (induction pre) simp_all

lemma init_fields:
  "indicators (init s) = indicators s" "cards (init s) = cards s" "currentIndex (init s) = currentIndex s"
  by (simp_all add: init_def)

lemma constructor_indicators:
  "indicators (constructor doc) =
     looseIndicators doc @
       (case indicatorContainer doc of
          None \<Rightarrow> []
        | Some children \<Rightarrow>
            indicatorsOf children @ map newIndicator [length children..<length (docCards doc)]) @
       laterIndicators doc"
  by (cases "indicatorContainer doc")
     (simp_all add: constructor_def Let_def init_fields
        querySelectorAll_indicator_def backfill_eq indicatorsOf_append indicatorsOf_new)

lemma constructor_cards:
  "cards (constructor doc) = docCards doc" "currentIndex (constructor doc) = 0"
  by (simp_all add: constructor_def Let_def init_fields)

lemma new_indicators_unmarked:
  "map (ind_active \<circ> newIndicator) ks = replicate (length ks) False"
  "map ind_active (map newIndicator ks) = replicate (length ks) False"
  by (induction ks) (simp_all add: newIndicator_def)

lemma markers_without_later:
  assumes "laterIndicators doc = []"
  shows "map ind_active (indicators (constructor doc)) =
           map ind_active (querySelectorAll_indicator (looseIndicators doc) (indicatorContainer doc)
                             (laterIndicators doc)) @
           replicate (length (indicators (constructor doc))
                       - length (querySelectorAll_indicator (looseIndicators doc) (indicatorContainer doc)
                                   (laterIndicators doc))) False"
  unfolding constructor_indicators querySelectorAll_indicator_def assms
  by (cases "indicatorContainer doc") (simp_all add: new_indicators_unmarked)

lemma only_first_append:
  assumes "bs = True # replicate m False"
  shows "bs @ replicate k False = True # replicate (length (bs @ replicate k False) - 1) False"
  unfolding assms by (simp add: replicate_add [symmetric])

text \<open>
  Claim C3, as the code has it. The constructor sets \<^verbatim>\<open>currentIndex\<close> to 0 and neither
  adds nor removes an active marker. The cards are those of the markup, with their
  markers. The indicators are, in document order, those of the markup before and inside
  the container, then the ones the constructor adds, which carry no marker, then those
  of the markup after the container; each indicator of the markup keeps its marker.
  When no indicator follows the container, the markers after the construction are those
  of the markup followed by unmarked ones; and then, if the markup marks exactly slide 0
  and exactly indicator 0, exactly slide 0 and exactly indicator 0 are marked after the
  construction.
\<close>

theorem constructor_keeps_active_markers:
  "currentIndex (constructor doc) = 0 \<and>
   cards (constructor doc) = docCards doc \<and>
   indicators (constructor doc) =
     looseIndicators doc @
       (case indicatorContainer doc of
          None \<Rightarrow> []
        | Some children \<Rightarrow>
            indicatorsOf children @ map newIndicator [length children..<length (docCards doc)]) @
       laterIndicators doc \<and>
   map ind_active (map newIndicator [m..<n]) = replicate (n - m) False \<and>
   (laterIndicators doc = [] \<longrightarrow>
      map ind_active (indicators (constructor doc)) =
        map ind_active (querySelectorAll_indicator (looseIndicators doc) (indicatorContainer doc)
                          (laterIndicators doc)) @
        replicate (length (indicators (constructor doc))
                    - length (querySelectorAll_indicator (looseIndicators doc) (indicatorContainer doc)
                                (laterIndicators doc))) False) \<and>
   (laterIndicators doc = [] \<and>
    map card_active (docCards doc) = True # replicate (length (docCards doc) - 1) False \<and>
    map ind_active (querySelectorAll_indicator (looseIndicators doc) (indicatorContainer doc)
                      (laterIndicators doc))
      = True # replicate (length (querySelectorAll_indicator (looseIndicators doc)
                                    (indicatorContainer doc) (laterIndicators doc)) - 1) False
    \<longrightarrow>
      map card_active (cards (constructor doc))
        = True # replicate (length (cards (constructor doc)) - 1) False \<and>
      map ind_active (indicators (constructor doc))
        = True # replicate (length (indicators (constructor doc)) - 1) False)"
proof (intro conjI impI)
  let ?ms = "querySelectorAll_indicator (looseIndicators doc) (indicatorContainer doc)
               (laterIndicators doc)"
  show "map ind_active (map newIndicator [m..<n]) = replicate (n - m) False"
    by (simp add: new_indicators_unmarked)
  show "indicators (constructor doc) =
     looseIndicators doc @
       (case indicatorContainer doc of
          None \<Rightarrow> []
        | Some children \<Rightarrow>
            indicatorsOf children @ map newIndicator [length children..<length (docCards doc)]) @
       laterIndicators doc"
    by (rule constructor_indicators)
  show "map ind_active (indicators (constructor doc)) =
        map ind_active ?ms @
        replicate (length (indicators (constructor doc)) - length ?ms) False"
    if "laterIndicators doc = []"
    using that by (rule markers_without_later)
  {
    assume a: "laterIndicators doc = [] \<and>
      map card_active (docCards doc) = True # replicate (length (docCards doc) - 1) False \<and>
      map ind_active ?ms = True # replicate (length ?ms - 1) False"
    show "map card_active (cards (constructor doc))
            = True # replicate (length (cards (constructor doc)) - 1) False"
      using a by (simp add: constructor_cards)
    let ?k = "length (indicators (constructor doc)) - length ?ms"
    have first: "map ind_active ?ms = True # replicate (length ?ms - 1) False"
      using a by blast
    have eq: "map ind_active (indicators (constructor doc)) = map ind_active ?ms @ replicate ?k False"
      using a markers_without_later by blast
    have "map ind_active ?ms @ replicate ?k False
            = True # replicate (length (map ind_active ?ms @ replicate ?k False) - 1) False"
      using first by (rule only_first_append)
    then show "map ind_active (indicators (constructor doc))
            = True # replicate (length (indicators (constructor doc)) - 1) False"
      unfolding eq [symmetric] by simp
  }
qed (simp_all add: constructor_cards)

text \<open>On the page with two unmarked cards, no slide carries the active marker after
  the construction, and there is no indicator. On the page whose only indicator follows
  the empty container, the markup marks slide 0 and indicator 0, and after the
  construction the marked indicator is the one at ordinal 2.\<close>

theorem constructor_keeps_active_markers_counterexample:
  "1 \<le> length (docCards barePage) \<and>
   filter card_active (cards (constructor barePage)) = [] \<and>
   filter ind_active (indicators (constructor barePage)) = [] \<and>
   map card_active (docCards trailingPage) = [True, False] \<and>
   map ind_active (querySelectorAll_indicator (looseIndicators trailingPage)
                     (indicatorContainer trailingPage) (laterIndicators trailingPage)) = [True] \<and>
   map ind_active (indicators (constructor trailingPage)) = [False, False, True]"
  by (simp add: constructor_cards constructor_indicators querySelectorAll_indicator_def
        barePage_def trailingPage_def idleCard_def activeCard_def plainIndicator_def
        newIndicator_def upt_rec)

text \<open>On the page with three slides and one indicator, marked, inside the container:
  slide 0 and indicator 0 are the marked ones after the construction.\<close>

theorem constructor_keeps_active_markers_witness:
  "laterIndicators shortPage = [] \<and>
   map card_active (docCards shortPage) = [True, False, False] \<and>
   map ind_active (querySelectorAll_indicator (looseIndicators shortPage)
                     (indicatorContainer shortPage) (laterIndicators shortPage)) = [True] \<and>
   map card_active (cards (constructor shortPage)) = [True, False, False] \<and>
   map ind_active (indicators (constructor shortPage)) = [True, False, False]"
proof -
  have h: "laterIndicators shortPage = []"
    "map card_active (docCards shortPage) = [True, False, False]"
    "map ind_active (querySelectorAll_indicator (looseIndicators shortPage)
                     (indicatorContainer shortPage) (laterIndicators shortPage)) = [True]"
    by (simp_all add: shortPage_def querySelectorAll_indicator_def activeCard_def idleCard_def
          plainIndicator_def)
  have n: "length (docCards shortPage) = 3" "length (cards (constructor shortPage)) = 3"
    "length (querySelectorAll_indicator (looseIndicators shortPage)
                     (indicatorContainer shortPage) (laterIndicators shortPage)) = 1"
    "length (indicators (constructor shortPage)) = 3"
    by (simp_all add: shortPage_def constructor_cards constructor_indicators
          querySelectorAll_indicator_def)
  have r: "replicate (3 - 1) False = [False, False]" "replicate (1 - 1) False = ([] :: bool list)"
    by (simp_all add: numeral_eq_Suc)
  have hyp: "laterIndicators shortPage = [] \<and>
    map card_active (docCards shortPage) = [True, False, False] \<and>
    map ind_active (querySelectorAll_indicator (looseIndicators shortPage)
                     (indicatorContainer shortPage) (laterIndicators shortPage)) = [True]"
    using h by (intro conjI)
  have imp: "laterIndicators shortPage = [] \<and>
    map card_active (docCards shortPage) = [True, False, False] \<and>
    map ind_active (querySelectorAll_indicator (looseIndicators shortPage)
                     (indicatorContainer shortPage) (laterIndicators shortPage)) = [True]
    \<longrightarrow>
      map card_active (cards (constructor shortPage)) = [True, False, False] \<and>
      map ind_active (indicators (constructor shortPage)) = [True, False, False]"
    using constructor_keeps_active_markers [where doc = shortPage and m = 0 and n = 0]
    unfolding n r by (elim conjE)
  from imp hyp have "map card_active (cards (constructor shortPage)) = [True, False, False] \<and>
      map ind_active (indicators (constructor shortPage)) = [True, False, False]"
    by (rule mp)
  with hyp show ?thesis by blast
qed

lemma indicatorClick_index:
  assumes "i < length (indicators s)" and "currentIndex s < length (cards s)" and "i < length (cards s)"
  shows "\<not> threw (indicatorClick i s)" and "currentIndex (state_of (indicatorClick i s)) = i"
  using assms by (simp_all add: indicatorClick_def goToSlide_ok)

text \<open>
  Claim C6, as the code has it. When the markup has an indicator container whose
  \<open>M < N\<close> children are the indicators of the document (every child carries the class
  \<^verbatim>\<open>indicator\<close> and holds no further indicator, and no indicator lies before or after
  the container), then after the construction there are exactly \<open>N\<close> indicators: the
  first \<open>M\<close> are those of the markup, and for \<open>M \<le> i < N\<close> indicator \<open>i\<close> is a new one with
  \<^verbatim>\<open>data-index\<close> \<open>i\<close>, the label \<^verbatim>\<open>Go to slide i+1\<close> and the test id \<^verbatim>\<open>indicator-i\<close>. A
  click on indicator \<open>i\<close> goes to slide \<open>i\<close>.
\<close>

theorem backfill_gives_one_indicator_per_slide:
  assumes "indicatorContainer doc = Some (map Ind pre)"
    and "looseIndicators doc = []"
    and "laterIndicators doc = []"
    and "length pre < length (docCards doc)"
  shows "length (indicators (constructor doc)) = length (docCards doc) \<and>
         take (length pre) (indicators (constructor doc)) = pre \<and>
         (\<forall>i. length pre \<le> i \<and> i < length (docCards doc) \<longrightarrow>
            indicators (constructor doc) ! i =
              \<lparr>ind_active = False,
               dataIndex = Some (toString i),
               ariaLabel = Some (''Go to slide '' @ toString (i + 1)),
               testid = Some (''indicator-'' @ toString i)\<rparr>) \<and>
         (\<forall>i < length (docCards doc).
            \<not> threw (indicatorClick i (constructor doc)) \<and>
            currentIndex (state_of (indicatorClick i (constructor doc))) = i)"
proof -
  let ?M = "length pre" and ?N = "length (docCards doc)"
  have ind: "indicators (constructor doc) = pre @ map newIndicator [?M..<?N]"
    unfolding constructor_indicators assms(1,2,3) by (simp add: indicatorsOf_Ind)
  have len: "length (indicators (constructor doc)) = ?N"
    unfolding ind using assms(4) by simp
  have pre: "take ?M (indicators (constructor doc)) = pre"
    unfolding ind by simp
  have new: "indicators (constructor doc) ! i = newIndicator i" if "?M \<le> i \<and> i < ?N" for i
  proof -
    have "i - ?M < ?N - ?M" using that by linarith
    then have "map newIndicator [?M..<?N] ! (i - ?M) = newIndicator (?M + (i - ?M))"
      by simp
    then show ?thesis
      unfolding ind using that by (simp add: nth_append)
  qed
  have click: "\<not> threw (indicatorClick i (constructor doc)) \<and>
               currentIndex (state_of (indicatorClick i (constructor doc))) = i" if "i < ?N" for i
  proof -
    have "i < length (indicators (constructor doc))" using that len by simp
    moreover have "currentIndex (constructor doc) < length (cards (constructor doc))"
      using that by (cases "docCards doc") (simp_all add: constructor_cards)
    moreover have "i < length (cards (constructor doc))"
      using that by (simp add: constructor_cards)
    ultimately show ?thesis
      using indicatorClick_index [of i "constructor doc"] by blast
  qed
  show ?thesis
    using len pre new click unfolding newIndicator_def by blast
qed

text \<open>On the page without an indicator container there are no indicators for the two
  slides, before and after the construction.\<close>

theorem backfill_gives_one_indicator_per_slide_counterexample:
  "length (querySelectorAll_indicator (looseIndicators barePage) (indicatorContainer barePage)
             (laterIndicators barePage))
     < length (docCards barePage) \<and>
   length (docCards barePage) = 2 \<and>
   length (indicators (constructor barePage)) = 0"
  by (simp add: constructor_indicators querySelectorAll_indicator_def barePage_def)

lemma toString_digits: "toString 1 = ''1''" "toString 2 = ''2''" "toString 3 = ''3''"
  by code_simp+

text \<open>On the page with three slides and one indicator, two indicators are added.\<close>

theorem backfill_gives_one_indicator_per_slide_witness:
  "indicatorContainer shortPage = Some (map Ind [plainIndicator\<lparr>ind_active := True\<rparr>]) \<and>
   looseIndicators shortPage = [] \<and>
   laterIndicators shortPage = [] \<and>
   length [plainIndicator\<lparr>ind_active := True\<rparr>] < length (docCards shortPage) \<and>
   length (indicators (constructor shortPage)) = 3 \<and>
   indicators (constructor shortPage) ! 0 = plainIndicator\<lparr>ind_active := True\<rparr> \<and>
   indicators (constructor shortPage) ! 2 =
     \<lparr>ind_active = False, dataIndex = Some ''2'', ariaLabel = Some ''Go to slide 3'',
      testid = Some ''indicator-2''\<rparr> \<and>
   currentIndex (state_of (indicatorClick 2 (constructor shortPage))) = 2"
proof -
  have h: "indicatorContainer shortPage = Some (map Ind [plainIndicator\<lparr>ind_active := True\<rparr>])"
    "looseIndicators shortPage = []"
    "laterIndicators shortPage = []"
    "length [plainIndicator\<lparr>ind_active := True\<rparr>] < length (docCards shortPage)"
    by (simp_all add: shortPage_def)
  have n: "length (docCards shortPage) = 3" by (simp add: shortPage_def)
  note inst = backfill_gives_one_indicator_per_slide [OF h]
  have "take (length [plainIndicator\<lparr>ind_active := True\<rparr>]) (indicators (constructor shortPage))
          = [plainIndicator\<lparr>ind_active := True\<rparr>]"
    using inst by blast
  then have first: "indicators (constructor shortPage) ! 0 = plainIndicator\<lparr>ind_active := True\<rparr>"
    by (metis length_Cons list.size(3) nth_Cons_0 nth_take zero_less_Suc)
  show ?thesis
    using h first inst by (simp add: n toString_digits)
qed

section \<open>The transition marker\<close>

text \<open>
  Claim C4 at the example page. \<^verbatim>\<open>goToSlide(1)\<close> from slide 0 marks slide 0 with
  \<^verbatim>\<open>prev\<close> and registers the 600 ms timeout (id 3). When the timeout fires, its callback
  reads \<^verbatim>\<open>this.currentIndex\<close>, which is 1 by then, and removes the marker from slide 1,
  which does not carry it; slide 0 keeps \<^verbatim>\<open>prev\<close>, and no timeout is left to remove it.
\<close>

theorem prev_marker_stays_on_outgoing_slide:
  "currentIndex (constructor examplePage) = 0 \<and>
   map card_prev (cards (constructor examplePage)) = [False, False, False] \<and>
   currentIndex (run [GoToSlide 1] (constructor examplePage)) = 1 \<and>
   map card_prev (cards (run [GoToSlide 1] (constructor examplePage))) = [True, False, False] \<and>
   filter (\<lambda>t. callback t = ClearPrev) (timers (run [GoToSlide 1] (constructor examplePage)))
     = [\<lparr>tid = 3, delay = 600, repeating = False, callback = ClearPrev\<rparr>] \<and>
   \<not> threw (fire 3 (run [GoToSlide 1] (constructor examplePage))) \<and>
   map card_prev (cards (run [GoToSlide 1, Fire 3] (constructor examplePage))) = [True, False, False] \<and>
   filter (\<lambda>t. callback t = ClearPrev) (timers (run [GoToSlide 1, Fire 3] (constructor examplePage))) = []"
  by (simp add: carousel_defs example_defs)

section \<open>Playback\<close>

lemma firstActive_None: "(\<forall>c \<in> set cs. \<not> card_active c) \<Longrightarrow> firstActive cs = None"
  by (induction cs) simp_all

lemmas video_defs =
  videoInit_def setupCard_def overlayClick_def observerCallback_def getCurrentIndex_def
  isPlaying_def newOverlay_def

text \<open>
  Claim C1 at the example page on a narrow viewport. Slide 0 is the active slide. The
  observer of slide 1 reports that its container does not intersect; then the overlay of
  slide 1 is tapped. The click listener hides the overlay and plays the video without
  looking at the active slide or at the intersection: the video of slide 1 is playing
  while slide 0 is the current slide.
\<close>

theorem tap_plays_video_of_slide_that_is_not_current:
  "getCurrentIndex (videoInit True (docCards examplePage)) = 0 \<and>
   map isPlaying (observerCallback True 1 False (videoInit True (docCards examplePage)))
     = [False, False, False] \<and>
   getCurrentIndex (overlayClick True 1 (observerCallback True 1 False (videoInit True (docCards examplePage)))) = 0 \<and>
   map isPlaying (overlayClick True 1 (observerCallback True 1 False (videoInit True (docCards examplePage))))
     = [False, True, False]"
  by (simp add: video_defs example_defs)

text \<open>Read off the lists above: the video of slide 1 is playing, and slide 1 is not the
  current slide.\<close>

theorem tap_plays_video_of_slide_that_is_not_current_witness:
  "isPlaying (overlayClick True 1 (observerCallback True 1 False (videoInit True (docCards examplePage))) ! 1) \<and>
   getCurrentIndex (overlayClick True 1 (observerCallback True 1 False (videoInit True (docCards examplePage)))) \<noteq> 1"
proof -
  let ?cs = "overlayClick True 1 (observerCallback True 1 False (videoInit True (docCards examplePage)))"
  have m: "map isPlaying ?cs = [False, True, False]" and c: "getCurrentIndex ?cs = 0"
    using tap_plays_video_of_slide_that_is_not_current by blast+
  have "length (map isPlaying ?cs) = 3" unfolding m by simp
  then have "1 < length ?cs" by simp
  then have "isPlaying (?cs ! 1) = map isPlaying ?cs ! 1" by (rule nth_map [symmetric])
  then show ?thesis unfolding m using c by simp
qed

text \<open>
  Claim C10. When no card carries the active marker, \<^verbatim>\<open>getCurrentIndex\<close> returns 0; on a
  wide viewport the observer of slide 0, told that its container intersects, then plays
  the video of slide 0 (when the slide has a video and a container).
\<close>

theorem getCurrentIndex_without_active_card:
  assumes "\<forall>c \<in> set cs. \<not> card_active c"
  shows "getCurrentIndex cs = 0 \<and>
         (cs \<noteq> [] \<and> portfolioVid (cs ! 0) \<noteq> None \<and> videoContainer (cs ! 0) \<noteq> None
            \<longrightarrow> isPlaying (observerCallback False 0 True cs ! 0))"
proof -
  have "firstActive cs = None" using assms by (rule firstActive_None)
  then have z: "getCurrentIndex cs = 0" by (simp add: getCurrentIndex_def)
  have "isPlaying (observerCallback False 0 True cs ! 0)"
    if "cs \<noteq> [] \<and> portfolioVid (cs ! 0) \<noteq> None \<and> videoContainer (cs ! 0) \<noteq> None"
    using that z by (auto simp: observerCallback_def isPlaying_def Let_def)
  with z show ?thesis by blast
qed

text \<open>On the page with two unmarked cards, slide 0 is played.\<close>

theorem getCurrentIndex_without_active_card_witness:
  "map card_active (docCards barePage) = [False, False] \<and>
   docCards barePage \<noteq> [] \<and>
   portfolioVid (docCards barePage ! 0) \<noteq> None \<and>
   videoContainer (docCards barePage ! 0) \<noteq> None \<and>
   getCurrentIndex (docCards barePage) = 0 \<and>
   map isPlaying (docCards barePage) = [False, False] \<and>
   isPlaying (observerCallback False 0 True (docCards barePage) ! 0)"
proof -
  have h: "\<forall>c \<in> set (docCards barePage). \<not> card_active c"
    by (simp add: barePage_def idleCard_def)
  have e: "docCards barePage \<noteq> []" "portfolioVid (docCards barePage ! 0) \<noteq> None"
    "videoContainer (docCards barePage ! 0) \<noteq> None"
    "map isPlaying (docCards barePage) = [False, False]"
    by (simp_all add: barePage_def idleCard_def isPlaying_def)
  have a: "map card_active (docCards barePage) = [False, False]"
    by (simp add: barePage_def idleCard_def)
  show ?thesis
    using a e getCurrentIndex_without_active_card [OF h] by blast
qed

end
